theory Spec2Isabelle
  imports Main "HOL-Library.AList"
begin

section \<open>JavaScript values\<close>

text \<open>
  The values that travel through \<^verbatim>\<open>wrapStore.js\<close>: store states, views, actions, sender
  metadata, port names, thrown values. Objects are association lists in key insertion
  order; an \<^verbatim>\<open>Error\<close> instance keeps its message. Data is treated as immutable (the Redux
  convention), so an object is its contents.
\<close>

datatype jsval =
    Undefined
  | Null
  | Bool bool
  | Num int
  | Str string
  | Obj "(string \<times> jsval) list"
  | Arr "jsval list"
  | ErrorObj string

type_synonym obj = "(string \<times> jsval) list"

text \<open>Truthiness, as \<^verbatim>\<open>!x\<close> and \<^verbatim>\<open>if (x)\<close> read it.\<close>

fun truthy :: "jsval \<Rightarrow> bool" where
  "truthy Undefined = False"
| "truthy Null = False"
| "truthy (Bool b) = b"
| "truthy (Num n) = (n \<noteq> 0)"
| "truthy (Str s) = (s \<noteq> [])"
| "truthy (Obj kvs) = True"
| "truthy (Arr xs) = True"
| "truthy (ErrorObj m) = True"

text \<open>
  Strict equality \<^verbatim>\<open>===\<close>. Primitives compare by value, objects by identity. Every use
  in \<^verbatim>\<open>wrapStore.js\<close> has one operand that arrives over the transport (\<^verbatim>\<open>request.type\<close>,
  \<^verbatim>\<open>request.portName\<close>, \<^verbatim>\<open>port.name\<close>), so two objects compared there are never the same
  object.
\<close>

fun strict_eq :: "jsval \<Rightarrow> jsval \<Rightarrow> bool" where
  "strict_eq (Obj kvs) b = False"
| "strict_eq (Arr xs) b = False"
| "strict_eq (ErrorObj m) b = False"
| "strict_eq a b = (a = b)"

text \<open>What a \<^verbatim>\<open>throw\<close> carries: a value thrown by the program, or the engine's TypeError.\<close>

datatype exn = TypeError | Thrown jsval

text \<open>
  The property read \<^verbatim>\<open>x.message\<close>: a TypeError on \<^verbatim>\<open>undefined\<close> and \<^verbatim>\<open>null\<close>, the message
  of an \<^verbatim>\<open>Error\<close>, the field of an object when it has one, and \<^verbatim>\<open>undefined\<close> on everything
  else (a string, number, boolean or array has no such property).
\<close>

fun get_message :: "jsval \<Rightarrow> exn + jsval" where
  "get_message Undefined = Inl TypeError"
| "get_message Null = Inl TypeError"
| "get_message (ErrorObj m) = Inr (Str m)"
| "get_message (Obj kvs) = Inr (case map_of kvs ''message'' of None \<Rightarrow> Undefined | Some v \<Rightarrow> v)"
| "get_message v = Inr Undefined"

text \<open>
  A value of the options object that may be a function: \<^verbatim>\<open>typeof x === 'function'\<close> holds
  of \<open>Fn f\<close> only; an absent option is \<open>Val Undefined\<close>.
\<close>

datatype 'f arg = Val jsval | Fn 'f

fun is_function :: "'f arg \<Rightarrow> bool" where
  "is_function (Fn f) = True"
| "is_function (Val v) = False"

fun truthy_arg :: "'f arg \<Rightarrow> bool" where
  "truthy_arg (Fn f) = True"
| "truthy_arg (Val v) = truthy v"

text \<open>A destructuring default \<^verbatim>\<open>{x = d}\<close> replaces \<^verbatim>\<open>undefined\<close> only.\<close>

fun with_default :: "'f arg \<Rightarrow> 'f \<Rightarrow> 'f arg" where
  "with_default (Val Undefined) d = Fn d"
| "with_default x d = x"

subsection \<open>Object.assign\<close>

text \<open>
  \<^verbatim>\<open>Object.assign(target, ...sources)\<close> writes into its target. To see which object is
  written, objects sit in cells of a store and the call takes cell numbers. The own
  enumerable properties of a source are copied in order; \<^verbatim>\<open>undefined\<close>, \<^verbatim>\<open>null\<close>, numbers
  and booleans have none, strings and arrays have their indexed elements, an \<^verbatim>\<open>Error\<close>
  has none (its message is not enumerable).
\<close>

definition digit :: "nat \<Rightarrow> char" where
  "digit d = char_of (d + 48)"

text \<open>The property name of the array index \<open>i\<close>: its decimal numeral.\<close>

fun index_key :: "nat \<Rightarrow> string" where
  "index_key i = (if 10 \<le> i then index_key (i div 10) @ [digit (i mod 10)] else [digit i])"

definition indexed :: "jsval list \<Rightarrow> obj" where
  "indexed xs = zip (map index_key [0..<length xs]) xs"

fun own_props :: "jsval \<Rightarrow> obj" where
  "own_props (Obj kvs) = kvs"
| "own_props (Arr xs) = indexed xs"
| "own_props (Str s) = indexed (map (\<lambda>c. Str [c]) s)"
| "own_props v = []"

type_synonym heap = "nat \<Rightarrow> jsval"

text \<open>\<^verbatim>\<open>target[k] = v\<close> on the object in a cell; the targets here are object literals.\<close>

fun set_prop :: "jsval \<Rightarrow> string \<Rightarrow> jsval \<Rightarrow> jsval" where
  "set_prop (Obj kvs) k v = Obj (AList.update k v kvs)"
| "set_prop x k v = x"

fun assign_props :: "heap \<Rightarrow> nat \<Rightarrow> obj \<Rightarrow> heap" where
  "assign_props h t [] = h"
| "assign_props h t ((k, v) # ps) = assign_props (h(t := set_prop (h t) k v)) t ps"

fun Object_assign :: "heap \<Rightarrow> nat \<Rightarrow> nat list \<Rightarrow> heap" where
  "Object_assign h t [] = h"
| "Object_assign h t (s # ss) = Object_assign (assign_props h t (own_props (h s))) t ss"

section \<open>Diff engine\<close>

text \<open>
  \<^verbatim>\<open>shallowDiff.js\<close> is imported by \<^verbatim>\<open>wrapStore.js\<close> but is not among the source files.
  A view is a shallow record: field names with values, in key order. The values are
  opaque to the diff, hence the type parameter.
\<close>

type_synonym 'v view = "(string \<times> 'v) list"

datatype 'v patch_op = Create string 'v | Update string 'v | Delete string

text \<open>
  Modelled from the spec: the function \<^verbatim>\<open>shallowDiff\<close> (spec 4.1, \<^verbatim>\<open>diff(previous, next)\<close>).
  For every key present in \<open>next\<close> but absent or value-unequal in \<open>previous\<close> an update
  (create if absent before) carrying the new value; for every key present in \<open>previous\<close>
  but absent in \<open>next\<close> a delete. Operations come in key encounter order.
\<close>

definition diff :: "'v view \<Rightarrow> 'v view \<Rightarrow> 'v patch_op list" where
  "diff previous next =
     map (\<lambda>(k, v). if map_of previous k = None then Create k v else Update k v)
       (filter (\<lambda>(k, v). map_of previous k \<noteq> Some v) next)
     @ map (\<lambda>(k, v). Delete k)
       (filter (\<lambda>(k, v). map_of next k = None) previous)"

text \<open>
  Modelled from the spec: applying one patch operation to a view (spec 3 and 8); the
  proxy-side code that applies patches is not among the source files. Create and update
  store the carried value under the key, delete removes the key.
\<close>

fun apply_op :: "'v view \<Rightarrow> 'v patch_op \<Rightarrow> 'v view" where
  "apply_op a (Create k v) = AList.update k v a"
| "apply_op a (Update k v) = AList.update k v a"
| "apply_op a (Delete k) = AList.delete k a"

text \<open>
  Modelled from the spec: applying a patch (spec 8, "applying \<^verbatim>\<open>diff(a, b)\<close> to \<^verbatim>\<open>a\<close>"): its
  operations, in order.
\<close>

definition apply_patch :: "'v patch_op list \<Rightarrow> 'v view \<Rightarrow> 'v view" where
  "apply_patch p a = foldl apply_op a p"

section \<open>wrapStore.js\<close>

text \<open>
  The source file \<^verbatim>\<open>src/src/index.js\<close> holds the package's \<^verbatim>\<open>index.js\<close> (lines 1 to 6)
  followed by \<^verbatim>\<open>wrap-store/wrapStore.js\<close>; the line numbers below are those of that file.
\<close>

subsection \<open>Constants, messages, serialization\<close>

text \<open>
  The file \<^verbatim>\<open>../constants\<close> is not among the source files. Spec 6 gives the wire names of
  the three message types; \<^verbatim>\<open>DEFAULT_SELECTOR\<close> has no value in the spec and is a parameter
  of \<open>wrapStore\<close> below.
\<close>

text \<open>Modelled from the spec: the constant \<^verbatim>\<open>DISPATCH_TYPE\<close> (spec 6).\<close>

definition DISPATCH_TYPE :: string where
  "DISPATCH_TYPE = ''DISPATCH''"

text \<open>Modelled from the spec: the constant \<^verbatim>\<open>STATE_TYPE\<close> (spec 6).\<close>

definition STATE_TYPE :: string where
  "STATE_TYPE = ''STATE''"

text \<open>Modelled from the spec: the constant \<^verbatim>\<open>PATCH_STATE_TYPE\<close> (spec 6).\<close>

definition PATCH_STATE_TYPE :: string where
  "PATCH_STATE_TYPE = ''PATCH_STATE''"

record message =
  msg_type :: string
  msg_key :: string
  msg_payload :: jsval

record request =
  req_type :: jsval
  req_portName :: jsval
  req_payload :: jsval

text \<open>
  The file \<^verbatim>\<open>../serialization\<close> is not among the source files; spec 4.2 describes the
  pipeline.
\<close>

text \<open>Modelled from the spec: \<^verbatim>\<open>noop\<close>, the default transform: identity passthrough.\<close>

definition noop :: "jsval \<Rightarrow> jsval" where
  "noop payload = payload"

text \<open>
  Modelled from the spec: \<^verbatim>\<open>withSerializer\<close>, the wrapped send primitive: it applies the
  transform to the payload once per message.
\<close>

definition withSerializer :: "(jsval \<Rightarrow> jsval) \<Rightarrow> (message \<Rightarrow> 'a) \<Rightarrow> message \<Rightarrow> 'a" where
  "withSerializer ser sendMessageFn m = sendMessageFn (m\<lparr>msg_payload := ser (msg_payload m)\<rparr>)"

text \<open>
  Modelled from the spec: \<^verbatim>\<open>withDeserializer\<close>, the wrapped receive primitive: it applies
  the transform to the payload once per message. It takes the predicate that
  \<^verbatim>\<open>wrapStore.js\<close> passes along with the listener and transforms the messages that the
  predicate accepts.
\<close>

definition withDeserializer ::
  "(jsval \<Rightarrow> jsval) \<Rightarrow> (request \<Rightarrow> 'a) \<Rightarrow> (request \<Rightarrow> bool) \<Rightarrow> request \<Rightarrow> 'a" where
  "withDeserializer de listener shouldDeserialize r =
     (if shouldDeserialize r then listener (r\<lparr>req_payload := de (req_payload r)\<rparr>)
      else listener r)"

subsection \<open>Promises and the default responder\<close>

text \<open>
  A promise is given by how it settles; a \<open>Pending\<close> one never does. What
  \<^verbatim>\<open>store.dispatch\<close> returns is a plain value or a promise. A responder is modelled by
  the values it passes to \<^verbatim>\<open>send\<close>, in order, once its promise chain has run; its console
  output is left out.
\<close>

datatype promise = Pending | Fulfilled jsval | Rejected jsval

datatype dispatch_result = Plain jsval | Promise promise

type_synonym responder = "dispatch_result \<Rightarrow> jsval list"

fun Promise_resolve :: "dispatch_result \<Rightarrow> promise" where
  "Promise_resolve (Plain v) = Fulfilled v"
| "Promise_resolve (Promise p) = p"

definition envelope :: "jsval \<Rightarrow> jsval \<Rightarrow> jsval" where
  "envelope e v = Obj [(''error'', e), (''value'', v)]"

text \<open>
  \<^verbatim>\<open>promiseResponder\<close> (lines 17 to 33):
  \<^verbatim>\<open>Promise.resolve(dispatchResult).then(res => send({error: null, value: res}))\<close>
  \<^verbatim>\<open>.catch(err => send({error: err.message, value: null}))\<close>. When \<^verbatim>\<open>err.message\<close> itself
  throws, the chain ends rejected and nothing is sent.
\<close>

definition promiseResponder :: responder where
  "promiseResponder dispatchResult =
     (case Promise_resolve dispatchResult of
        Fulfilled res \<Rightarrow> [envelope Null res]
      | Rejected err \<Rightarrow>
          (case get_message err of
             Inr m \<Rightarrow> [envelope m Null]
           | Inl ex \<Rightarrow> [])
      | Pending \<Rightarrow> [])"

subsection \<open>The store, the ports and the hub\<close>

text \<open>
  The Redux store is an external collaborator. \<^verbatim>\<open>store.dispatch(action)\<close> is a function
  of the action and the current state: it returns or throws, leaves a new state, and
  says whether the store notified its listeners during the call.
\<close>

datatype dispatch_outcome = Returns dispatch_result | Throws jsval

record store_result =
  outcome :: dispatch_outcome
  new_state :: jsval
  notifies :: bool

type_synonym selector = "jsval \<Rightarrow> jsval"

text \<open>
  The variables that the closures of one \<^verbatim>\<open>wrapStoreSelectors\<close> call share, after the
  defaults. \<^verbatim>\<open>shallowDiff\<close> is imported from a file that is not among the sources: it is a
  parameter here, a function from two views to the array of changes.
\<close>

record config =
  portName :: jsval
  dispatchResponder :: "responder arg"
  serializer :: "jsval \<Rightarrow> jsval"
  deserializer :: "jsval \<Rightarrow> jsval"
  selectors :: "(string \<times> selector) list"
  shallowDiff :: "jsval \<Rightarrow> jsval \<Rightarrow> jsval list"
  store_dispatch :: "jsval \<Rightarrow> jsval \<Rightarrow> store_result"

text \<open>
  A \<^verbatim>\<open>patchState\<close> closure subscribed to the store: the port it posts to, the variables
  it closes over and its own \<^verbatim>\<open>prevStates\<close>. \<open>sub_id\<close> identifies the subscription, so
  that the \<^verbatim>\<open>unsubscribe\<close> returned by \<^verbatim>\<open>store.subscribe\<close> removes this listener only.
\<close>

record listener =
  sub_id :: nat
  sub_port :: nat
  sub_env :: config
  prevStates :: "string \<Rightarrow> jsval"

text \<open>
  A port of the transport: its name, the messages handed to \<^verbatim>\<open>port.postMessage\<close> so far,
  and the subscriptions whose \<^verbatim>\<open>unsubscribe\<close> is registered on \<^verbatim>\<open>port.onDisconnect\<close>.
\<close>

record port =
  port_name :: jsval
  posted :: "message list"
  onDisconnect :: "nat list"

record hub =
  store_state :: jsval
  subscribers :: "listener list"
  next_id :: nat
  ports :: "port list"
  dispatched :: "jsval list"
  logged :: "jsval list"
  replies :: "jsval list"
  uncaught :: "exn list"

text \<open>
  \<^verbatim>\<open>port.postMessage\<close> for each of \<open>ms\<close> on the port with index \<open>p\<close>. The index is that of a
  port object the transport has created; for any other index the list update changes
  nothing.
\<close>

definition post_all :: "nat \<Rightarrow> message list \<Rightarrow> port list \<Rightarrow> port list" where
  "post_all p ms ps = ps[p := (ps ! p)\<lparr>posted := posted (ps ! p) @ ms\<rparr>]"

subsection \<open>patchState and connectState\<close>

text \<open>
  The selectors, \<^verbatim>\<open>shallowDiff\<close>, the serializer, the deserializer and \<^verbatim>\<open>port.postMessage\<close>
  are taken to return: spec 4.2 and 4.3 have them pure, and \<^verbatim>\<open>wrapStore.js\<close> catches nothing
  around them. They are total functions here. Of the calls the file makes, the one it
  guards is \<^verbatim>\<open>store.dispatch\<close>, which returns or throws.
\<close>

text \<open>
  \<^verbatim>\<open>serializedMessagePoster\<close> hands the message with its payload serialized to
  \<^verbatim>\<open>port.postMessage\<close>; the model collects the messages handed over, in order.
\<close>

definition serializedMessagePoster :: "config \<Rightarrow> message \<Rightarrow> message list" where
  "serializedMessagePoster env = withSerializer (serializer env) (\<lambda>m. [m])"

text \<open>
  The body of the \<^verbatim>\<open>forEach\<close> in \<^verbatim>\<open>patchState\<close> (lines 102 to 114), for one entry of
  \<^verbatim>\<open>selectors\<close>, on the cache and the messages posted so far.
  \<^verbatim>\<open>Object.keys(selectors).forEach\<close> visits the keys in order and reads \<^verbatim>\<open>selectors[sKey]\<close>
  for each: it visits the entries. \<^verbatim>\<open>prevStates\<close> is read and written by key only; it
  starts as \<^verbatim>\<open>{}\<close>, which reads as \<^verbatim>\<open>undefined\<close> at every key.
\<close>

fun patch_selector ::
  "config \<Rightarrow> jsval \<Rightarrow> (string \<Rightarrow> jsval) \<times> message list \<Rightarrow> string \<times> selector
     \<Rightarrow> (string \<Rightarrow> jsval) \<times> message list" where
  "patch_selector env st (prev, out) (sKey, sel) =
     (let newValue = sel st;
          d = shallowDiff env (prev sKey) newValue
      in if d \<noteq> []
         then (prev(sKey := newValue),
               out @ serializedMessagePoster env
                 \<lparr>msg_type = PATCH_STATE_TYPE, msg_key = sKey, msg_payload = Arr d\<rparr>)
         else (prev, out))"

text \<open>\<^verbatim>\<open>patchState\<close> (lines 99 to 115), in the store's state \<open>st\<close>.\<close>

definition patchState ::
  "config \<Rightarrow> jsval \<Rightarrow> (string \<Rightarrow> jsval) \<Rightarrow> (string \<Rightarrow> jsval) \<times> message list" where
  "patchState env st prev = foldl (patch_selector env st) (prev, []) (selectors env)"

text \<open>The store calls each subscribed listener, in subscription order.\<close>

definition notify :: "hub \<Rightarrow> hub" where
  "notify h =
     h\<lparr>subscribers :=
         map (\<lambda>l. l\<lparr>prevStates := fst (patchState (sub_env l) (store_state h) (prevStates l))\<rparr>)
           (subscribers h),
       ports :=
         foldl (\<lambda>ps l. post_all (sub_port l)
                  (snd (patchState (sub_env l) (store_state h) (prevStates l))) ps)
           (ports h) (subscribers h)\<rparr>"

text \<open>The function that \<^verbatim>\<open>store.subscribe\<close> returned for subscription \<open>i\<close>.\<close>

definition unsubscribe :: "nat \<Rightarrow> hub \<Rightarrow> hub" where
  "unsubscribe i h = h\<lparr>subscribers := filter (\<lambda>l. sub_id l \<noteq> i) (subscribers h)\<rparr>"

text \<open>Line 97: \<^verbatim>\<open>prevStates[sKey] = selectors[sKey](state)\<close> for every key.\<close>

definition initial_views :: "config \<Rightarrow> jsval \<Rightarrow> string \<Rightarrow> jsval" where
  "initial_views env st =
     foldl (\<lambda>prev (sKey, sel). prev(sKey := sel st)) (\<lambda>k. Undefined) (selectors env)"

text \<open>Lines 124 to 130: one \<^verbatim>\<open>STATE\<close> message per key, carrying the cached view.\<close>

definition initial_messages :: "config \<Rightarrow> (string \<Rightarrow> jsval) \<Rightarrow> message list" where
  "initial_messages env prev =
     concat (map (\<lambda>(sKey, sel). serializedMessagePoster env
        \<lparr>msg_type = STATE_TYPE, msg_key = sKey, msg_payload = prev sKey\<rparr>) (selectors env))"

text \<open>
  \<^verbatim>\<open>connectState(port)\<close> (lines 87 to 131), with the port given by its index \<open>p\<close> among
  the ports of the transport: nothing for a port of another name; otherwise the views
  are cached, \<^verbatim>\<open>patchState\<close> is subscribed, its \<^verbatim>\<open>unsubscribe\<close> is registered on the port's
  disconnect event, and the \<^verbatim>\<open>STATE\<close> messages are posted.
\<close>

definition connectState :: "config \<Rightarrow> nat \<Rightarrow> hub \<Rightarrow> hub" where
  "connectState env p h =
     (if \<not> strict_eq (port_name (ports h ! p)) (portName env) then h
      else
        let prev = initial_views env (store_state h);
            i = next_id h;
            h1 = h\<lparr>subscribers := subscribers h @
                     [\<lparr>sub_id = i, sub_port = p, sub_env = env, prevStates = prev\<rparr>],
                   next_id := Suc i\<rparr>;
            h2 = h1\<lparr>ports := (ports h1)[p := (ports h1 ! p)
                     \<lparr>onDisconnect := onDisconnect (ports h1 ! p) @ [i]\<rparr>]\<rparr>
        in h2\<lparr>ports := post_all p (initial_messages env prev) (ports h2)\<rparr>)"

subsection \<open>dispatchResponse\<close>

text \<open>
  Lines 66 to 68, \<^verbatim>\<open>Object.assign({}, request.payload, {_sender: sender})\<close>: the payload
  sits in cell 0,
  the literal with the sender in cell 1 and the fresh target in cell 2; the action is
  what cell 2 holds afterwards.
\<close>

definition action_cells :: "jsval \<Rightarrow> jsval \<Rightarrow> heap" where
  "action_cells payload sender =
     (\<lambda>c. Undefined)(0 := payload, 1 := Obj [(''_sender'', sender)], 2 := Obj [])"

definition make_action :: "jsval \<Rightarrow> jsval \<Rightarrow> heap" where
  "make_action payload sender = Object_assign (action_cells payload sender) 2 [0, 1]"

text \<open>
  The call \<^verbatim>\<open>store.dispatch(action)\<close>: the store records the action, moves to its new
  state and, when it notifies, runs the subscribed \<^verbatim>\<open>patchState\<close> closures before the
  call returns or throws.
\<close>

definition call_dispatch :: "config \<Rightarrow> jsval \<Rightarrow> hub \<Rightarrow> dispatch_outcome \<times> hub" where
  "call_dispatch env action h =
     (let r = store_dispatch env action (store_state h);
          h1 = h\<lparr>store_state := new_state r, dispatched := dispatched h @ [action]\<rparr>
      in (outcome r, if notifies r then notify h1 else h1))"

datatype handler_result = Returned jsval | Threw exn

text \<open>
  Lines 79 and 80, \<^verbatim>\<open>dispatchResponder(dispatchResult, sendResponse); return true\<close>. Calling
  a responder that is not a function throws a TypeError.
\<close>

fun respond ::
  "responder arg \<Rightarrow> dispatch_result \<Rightarrow> hub \<Rightarrow> handler_result \<times> jsval list \<times> hub" where
  "respond (Fn f) r h = (Returned (Bool True), f r, h)"
| "respond (Val v) r h = (Threw TypeError, [], h)"

text \<open>\<^verbatim>\<open>shouldDeserialize\<close> (line 134).\<close>

definition shouldDeserialize :: "config \<Rightarrow> request \<Rightarrow> bool" where
  "shouldDeserialize env r =
     (strict_eq (req_type r) (Str DISPATCH_TYPE) \<and> strict_eq (req_portName r) (portName env))"

text \<open>
  \<^verbatim>\<open>dispatchResponse\<close> (lines 64 to 82). The result is what the handler returns or throws,
  the values passed to \<^verbatim>\<open>sendResponse\<close>, and the hub afterwards.
\<close>

definition dispatchResponse ::
  "config \<Rightarrow> request \<Rightarrow> jsval \<Rightarrow> hub \<Rightarrow> handler_result \<times> jsval list \<times> hub" where
  "dispatchResponse env r sender h =
     (if strict_eq (req_type r) (Str DISPATCH_TYPE) \<and> strict_eq (req_portName r) (portName env)
      then
        let action = make_action (req_payload r) sender 2
        in case call_dispatch env action h of
             (Returns dispatchResult, h1) \<Rightarrow> respond (dispatchResponder env) dispatchResult h1
           | (Throws e, h1) \<Rightarrow>
               (case get_message e of
                  Inl ex \<Rightarrow> (Threw ex, [], h1)
                | Inr m \<Rightarrow>
                    respond (dispatchResponder env) (Promise (Rejected m))
                      (h1\<lparr>logged := logged h1 @ [e]\<rparr>))
      else (Returned Undefined, [], h))"

subsection \<open>wrapStoreSelectors and wrapStore\<close>

text \<open>
  \<^verbatim>\<open>chrome.runtime\<close>: the listeners registered on its four events (the external ones
  may be missing), and the console warnings.
\<close>

type_synonym message_listener =
  "request \<Rightarrow> jsval \<Rightarrow> hub \<Rightarrow> handler_result \<times> jsval list \<times> hub"

type_synonym connect_listener = "nat \<Rightarrow> hub \<Rightarrow> hub"

record runtime =
  onMessage :: "message_listener list"
  onMessageExternal :: "message_listener list option"
  onConnect :: "connect_listener list"
  onConnectExternal :: "connect_listener list option"
  warnings :: "string list"

record options =
  opt_portName :: jsval
  opt_dispatchResponder :: "responder arg"
  opt_serializer :: "(jsval \<Rightarrow> jsval) arg"
  opt_deserializer :: "(jsval \<Rightarrow> jsval) arg"

text \<open>
  The registrations at the end of \<^verbatim>\<open>wrapStoreSelectors\<close> (lines 133 to 162), for the
  closures of \<open>env\<close>.
\<close>

definition register :: "config \<Rightarrow> runtime \<Rightarrow> runtime" where
  "register env rt =
     (let withPayloadDeserializer = withDeserializer (deserializer env);
          handler = withPayloadDeserializer (dispatchResponse env) (shouldDeserialize env);
          rt1 = rt\<lparr>onMessage := onMessage rt @ [handler]\<rparr>;
          rt2 = (case onMessageExternal rt1 of
                   Some ls \<Rightarrow> rt1\<lparr>onMessageExternal := Some (ls @ [handler])\<rparr>
                 | None \<Rightarrow> rt1\<lparr>warnings := warnings rt1 @
                     [''runtime.onMessageExternal is not supported'']\<rparr>);
          rt3 = rt2\<lparr>onConnect := onConnect rt2 @ [connectState env]\<rparr>
      in case onConnectExternal rt3 of
           Some ls \<Rightarrow> rt3\<lparr>onConnectExternal := Some (ls @ [connectState env])\<rparr>
         | None \<Rightarrow> rt3\<lparr>warnings := warnings rt3 @
             [''runtime.onConnectExternal is not supported'']\<rparr>)"

text \<open>
  \<^verbatim>\<open>wrapStoreSelectors\<close> (lines 40 to 163): the defaults of the destructured options, the
  three checks, the default responder, the registrations. The result is the exception
  thrown, if any, and \<^verbatim>\<open>chrome.runtime\<close> as the call leaves it.
\<close>

definition wrapStoreSelectors ::
  "(jsval \<Rightarrow> jsval \<Rightarrow> jsval list) \<Rightarrow> (jsval \<Rightarrow> jsval \<Rightarrow> store_result)
     \<Rightarrow> (string \<times> selector) list \<Rightarrow> options \<Rightarrow> runtime \<Rightarrow> exn option \<times> runtime" where
  "wrapStoreSelectors diff_fn store sels opts rt =
     (if \<not> truthy (opt_portName opts)
      then (Some (Thrown (ErrorObj ''portName is required in options'')), rt)
      else case with_default (opt_serializer opts) noop of
        Val v \<Rightarrow> (Some (Thrown (ErrorObj ''serializer must be a function'')), rt)
      | Fn ser \<Rightarrow>
         (case with_default (opt_deserializer opts) noop of
            Val v \<Rightarrow> (Some (Thrown (ErrorObj ''deserializer must be a function'')), rt)
          | Fn de \<Rightarrow>
              (None, register
                 \<lparr>portName = opt_portName opts,
                  dispatchResponder =
                    (if \<not> truthy_arg (opt_dispatchResponder opts) then Fn promiseResponder
                     else opt_dispatchResponder opts),
                  serializer = ser, deserializer = de, selectors = sels,
                  shallowDiff = diff_fn, store_dispatch = store\<rparr> rt)))"

text \<open>
  The default export (line 170):
  \<^verbatim>\<open>wrapStoreSelectors(store, {[DEFAULT_SELECTOR]: state => state}, options)\<close>.
\<close>

definition wrapStore ::
  "string \<Rightarrow> (jsval \<Rightarrow> jsval \<Rightarrow> jsval list) \<Rightarrow> (jsval \<Rightarrow> jsval \<Rightarrow> store_result)
     \<Rightarrow> options \<Rightarrow> runtime \<Rightarrow> exn option \<times> runtime" where
  "wrapStore DEFAULT_SELECTOR diff_fn store opts rt =
     wrapStoreSelectors diff_fn store [(DEFAULT_SELECTOR, \<lambda>state. state)] opts rt"

subsection \<open>Events\<close>

text \<open>
  What happens to the hub: a port connects (from inside or outside the extension), a
  port disconnects, the store changes state on its own and notifies, a message arrives.
  Each event runs the listeners registered for it, to completion.
\<close>

datatype origin = Internal | External

datatype event =
    Connect origin jsval
  | Disconnect nat
  | Changed jsval
  | Message origin request jsval

text \<open>The listeners that an event reaches.\<close>

fun connect_listeners :: "runtime \<Rightarrow> origin \<Rightarrow> connect_listener list" where
  "connect_listeners rt Internal = onConnect rt"
| "connect_listeners rt External = (case onConnectExternal rt of None \<Rightarrow> [] | Some ls \<Rightarrow> ls)"

fun message_listeners :: "runtime \<Rightarrow> origin \<Rightarrow> message_listener list" where
  "message_listeners rt Internal = onMessage rt"
| "message_listeners rt External = (case onMessageExternal rt of None \<Rightarrow> [] | Some ls \<Rightarrow> ls)"

text \<open>
  The transport calls a message listener: what the listener passes to \<^verbatim>\<open>sendResponse\<close>
  is delivered, what it throws goes uncaught.
\<close>

definition deliver :: "request \<Rightarrow> jsval \<Rightarrow> hub \<Rightarrow> message_listener \<Rightarrow> hub" where
  "deliver r sender h f =
     (case f r sender h of
        (Returned v, sent, h1) \<Rightarrow> h1\<lparr>replies := replies h1 @ sent\<rparr>
      | (Threw ex, sent, h1) \<Rightarrow> h1\<lparr>replies := replies h1 @ sent, uncaught := uncaught h1 @ [ex]\<rparr>)"

text \<open>
  An event from outside cannot occur when the transport has no external variant of it.
\<close>

fun occurs :: "runtime \<Rightarrow> event \<Rightarrow> bool" where
  "occurs rt (Connect External nm) = (onConnectExternal rt \<noteq> None)"
| "occurs rt (Message External r sender) = (onMessageExternal rt \<noteq> None)"
| "occurs rt e = True"

text \<open>The transport's port object for a new connection.\<close>

definition new_port :: "jsval \<Rightarrow> port" where
  "new_port nm = \<lparr>port_name = nm, posted = [], onDisconnect = []\<rparr>"

text \<open>
  The hub handles an event: a connect creates the port and calls the connect listeners
  with it; a disconnect calls what is registered on the port's disconnect event; a
  change of the store's state notifies; a message is passed to the message listeners.
\<close>

fun handle :: "runtime \<Rightarrow> hub \<Rightarrow> event \<Rightarrow> hub" where
  "handle rt h (Connect src nm) =
     foldl (\<lambda>h1 f. f (length (ports h)) h1) (h\<lparr>ports := ports h @ [new_port nm]\<rparr>)
       (connect_listeners rt src)"
| "handle rt h (Disconnect p) =
     (if p < length (ports h) then foldl (\<lambda>h1 i. unsubscribe i h1) h (onDisconnect (ports h ! p))
      else h)"
| "handle rt h (Changed s) = notify (h\<lparr>store_state := s\<rparr>)"
| "handle rt h (Message src r sender) = foldl (deliver r sender) h (message_listeners rt src)"

definition step :: "runtime \<Rightarrow> hub \<Rightarrow> event \<Rightarrow> hub" where
  "step rt h e = (if occurs rt e then handle rt h e else h)"

text \<open>The hub after a sequence of events.\<close>

definition run :: "runtime \<Rightarrow> hub \<Rightarrow> event list \<Rightarrow> hub" where
  "run rt h evs = foldl (step rt) h evs"

text \<open>\<^verbatim>\<open>chrome.runtime\<close> before any wrap, with or without the external events.\<close>

definition empty_runtime :: "bool \<Rightarrow> runtime" where
  "empty_runtime ext =
     \<lparr>onMessage = [], onMessageExternal = (if ext then Some [] else None),
      onConnect = [], onConnectExternal = (if ext then Some [] else None), warnings = []\<rparr>"

text \<open>The hub before any event: the store in state \<open>s\<close>, no port, no subscription.\<close>

definition initial_hub :: "jsval \<Rightarrow> hub" where
  "initial_hub s =
     \<lparr>store_state = s, subscribers = [], next_id = 0, ports = [], dispatched = [],
      logged = [], replies = [], uncaught = []\<rparr>"

subsection \<open>What a port has been sent\<close>

text \<open>The messages posted so far on the port with index \<open>p\<close>; none before it exists.\<close>

definition posted_on :: "hub \<Rightarrow> nat \<Rightarrow> message list" where
  "posted_on h p = (if p < length (ports h) then posted (ports h ! p) else [])"

text \<open>The messages of a sequence that carry the selector name \<open>k\<close>.\<close>

definition keyed :: "string \<Rightarrow> message list \<Rightarrow> message list" where
  "keyed k ms = filter (\<lambda>m. msg_key m = k) ms"


subsection \<open>Vocabulary of the proofs\<close>

text \<open>
  What one pass of the \<^verbatim>\<open>forEach\<close> body does for the selector \<open>(k, sel)\<close>: the message
  it posts and the view it leaves in the cache.
\<close>

definition patch_message :: "config \<Rightarrow> string \<Rightarrow> jsval list \<Rightarrow> message" where
  "patch_message env k d =
     \<lparr>msg_type = PATCH_STATE_TYPE, msg_key = k, msg_payload = serializer env (Arr d)\<rparr>"

definition patched_view :: "config \<Rightarrow> jsval \<Rightarrow> (string \<Rightarrow> jsval) \<Rightarrow> string \<Rightarrow> selector \<Rightarrow> jsval" where
  "patched_view env st prev k sel =
     (if shallowDiff env (prev k) (sel st) \<noteq> [] then sel st else prev k)"

definition patch_messages :: "config \<Rightarrow> jsval \<Rightarrow> (string \<Rightarrow> jsval) \<Rightarrow> string \<Rightarrow> selector \<Rightarrow> message list" where
  "patch_messages env st prev k sel =
     (if shallowDiff env (prev k) (sel st) \<noteq> []
      then [patch_message env k (shallowDiff env (prev k) (sel st))] else [])"

text \<open>
  Every subscribed listener posts to a port that exists, and its \<^verbatim>\<open>unsubscribe\<close> is
  registered on that port.
\<close>

definition consistent :: "hub \<Rightarrow> bool" where
  "consistent h \<longleftrightarrow>
     (\<forall>l \<in> set (subscribers h).
        sub_port l < length (ports h) \<and> sub_id l \<in> set (onDisconnect (ports h ! sub_port l)))"

text \<open>
  The hub of one wrap: besides, every port has at most one subscribed listener, and the
  listeners are closures of that wrap.
\<close>

definition single_wrap :: "config \<Rightarrow> hub \<Rightarrow> bool" where
  "single_wrap env h \<longleftrightarrow>
     consistent h \<and> distinct (map sub_port (subscribers h))
     \<and> (\<forall>l \<in> set (subscribers h). sub_env l = env)"


text \<open>No subscribed listener posts to port \<open>p\<close>.\<close>

definition released :: "nat \<Rightarrow> hub \<Rightarrow> bool" where
  "released p h \<longleftrightarrow> p < length (ports h) \<and> p \<notin> sub_port ` set (subscribers h)"



section \<open>An example hub\<close>

text \<open>
  The scenarios of spec 8: port name \<^verbatim>\<open>MY_APP\<close>, default options, the selectors
  \<^verbatim>\<open>s1 = (st) => ({a: st.a})\<close> and \<^verbatim>\<open>s2 = (st) => ({b: st.b})\<close>, and a store whose dispatch
  throws \<^verbatim>\<open>Error("boom")\<close>.
\<close>

definition example_options :: options where
  "example_options =
     \<lparr>opt_portName = Str ''MY_APP'', opt_dispatchResponder = Val Undefined,
      opt_serializer = Val Undefined, opt_deserializer = Val Undefined\<rparr>"

definition pick :: "string list \<Rightarrow> selector" where
  "pick ks st =
     Obj (map (\<lambda>k. (k, case map_of (own_props st) k of None \<Rightarrow> Undefined | Some v \<Rightarrow> v)) ks)"

definition example_selectors :: "(string \<times> selector) list" where
  "example_selectors = [(''s1'', pick [''a'']), (''s2'', pick [''b''])]"

text \<open>
  Modelled from the spec: a patch operation as a value, the object \<^verbatim>\<open>{op, key, value}\<close> of
  spec 3.
\<close>

fun encode_op :: "jsval patch_op \<Rightarrow> jsval" where
  "encode_op (Create k v) = Obj [(''op'', Str ''create''), (''key'', Str k), (''value'', v)]"
| "encode_op (Update k v) = Obj [(''op'', Str ''update''), (''key'', Str k), (''value'', v)]"
| "encode_op (Delete k) = Obj [(''op'', Str ''delete''), (''key'', Str k)]"

text \<open>
  Modelled from the spec: \<^verbatim>\<open>shallowDiff\<close> on the values of this model, for the example: the
  patch of spec 4.1 between the fields of the two views.
\<close>

definition shallowDiff_spec :: "jsval \<Rightarrow> jsval \<Rightarrow> jsval list" where
  "shallowDiff_spec previous next = map encode_op (diff (own_props previous) (own_props next))"

definition throwing_store :: "jsval \<Rightarrow> jsval \<Rightarrow> store_result" where
  "throwing_store action st =
     \<lparr>outcome = Throws (ErrorObj ''boom''), new_state = st, notifies = False\<rparr>"

definition example_env :: config where
  "example_env =
     \<lparr>portName = Str ''MY_APP'', dispatchResponder = Fn promiseResponder,
      serializer = noop, deserializer = noop, selectors = example_selectors,
      shallowDiff = shallowDiff_spec, store_dispatch = throwing_store\<rparr>"

text \<open>A dispatch request whose payload carries a \<^verbatim>\<open>_sender\<close> of its own.\<close>

definition example_request :: request where
  "example_request =
     \<lparr>req_type = Str DISPATCH_TYPE, req_portName = Str ''MY_APP'',
      req_payload = Obj [(''type'', Str ''X''), (''_sender'', Str ''forged'')]\<rparr>"

text \<open>The dispatch request of the scenario, with the action \<^verbatim>\<open>{type: "X"}\<close>.\<close>

definition boom_request :: request where
  "boom_request =
     \<lparr>req_type = Str DISPATCH_TYPE, req_portName = Str ''MY_APP'',
      req_payload = Obj [(''type'', Str ''X'')]\<rparr>"

definition state_a1_b2 :: jsval where
  "state_a1_b2 = Obj [(''a'', Num 1), (''b'', Num 2)]"

definition state_a1_b3 :: jsval where
  "state_a1_b3 = Obj [(''a'', Num 1), (''b'', Num 3)]"

definition example_runtime :: runtime where
  "example_runtime = snd (wrapStoreSelectors shallowDiff_spec throwing_store example_selectors
     example_options (empty_runtime True))"

section \<open>Properties of the diff engine\<close>

lemma diff_same_filter:
  "distinct (map fst a) \<Longrightarrow> filter (\<lambda>(k, v). map_of a k \<noteq> Some v) a = []"
  by (auto simp: filter_empty_conv)

lemma diff_same_deletes:
  "filter (\<lambda>(k, v). map_of a k = None) a = []"
  by (auto simp: filter_empty_conv map_of_eq_None_iff intro: rev_image_eqI)

lemma apply_sets:
  "map_of (foldl apply_op a (map (\<lambda>(k, v). if P k then Create k v else Update k v) ps))
     = map_of a ++ map_of (rev ps)"
proof (induction ps arbitrary: a)
  case Nil
  show ?case by simp
next
  case (Cons p ps)
  obtain k v where p: "p = (k, v)" by (cases p)
  have "map_of (AList.update k v a) ++ map_of (rev ps)
          = map_of a ++ ([k \<mapsto> v] ++ map_of (rev ps))"
    by (rule ext) (simp add: update_conv' map_add_def split: option.splits)
  with Cons.IH [of "AList.update k v a"] p show ?case
    by (simp add: map_add_assoc)
qed

lemma apply_deletes:
  "map_of (foldl apply_op a (map (\<lambda>(k, v). Delete k) ps)) x
     = (if x \<in> fst ` set ps then None else map_of a x)"
proof (induction ps arbitrary: a)
  case Nil
  show ?case by simp
next
  case (Cons p ps)
  obtain k v where p: "p = (k, v)" by (cases p)
  from Cons.IH [of "AList.delete k a"] p show ?case
    by (auto simp: delete_conv')
qed

lemma map_of_rev_distinct:
  "distinct (map fst ps) \<Longrightarrow> map_of (rev ps) = map_of ps"
  by (rule map_of_inject_set [THEN iffD2]) (simp_all add: distinct_rev rev_map [symmetric])

lemma changed_fields:
  assumes "distinct (map fst b)"
  shows "(map_of a ++ map_of (filter (\<lambda>(k, v). map_of a k \<noteq> Some v) b)) x
           = (if x \<in> fst ` set b then map_of b x else map_of a x)"
proof (cases "map_of b x")
  case None
  then have nb: "x \<notin> fst ` set b" by (simp add: map_of_eq_None_iff)
  then have "x \<notin> fst ` set (filter (\<lambda>(k, v). map_of a k \<noteq> Some v) b)" by auto
  then have "map_of (filter (\<lambda>(k, v). map_of a k \<noteq> Some v) b) x = None"
    by (simp add: map_of_eq_None_iff)
  with nb show ?thesis by (simp add: map_add_def)
next
  case (Some v)
  then have mem: "(x, v) \<in> set b" by (rule map_of_SomeD)
  then have xb: "x \<in> fst ` set b" by (rule rev_image_eqI) simp
  have df: "distinct (map fst (filter (\<lambda>(k, v). map_of a k \<noteq> Some v) b))"
    using assms by (rule distinct_map_filter)
  show ?thesis
  proof (cases "map_of a x = Some v")
    case True
    have "map_of (filter (\<lambda>(k, v). map_of a k \<noteq> Some v) b) x = None"
    proof (rule ccontr)
      assume "map_of (filter (\<lambda>(k, v). map_of a k \<noteq> Some v) b) x \<noteq> None"
      then obtain w where "map_of (filter (\<lambda>(k, v). map_of a k \<noteq> Some v) b) x = Some w"
        by auto
      then have "(x, w) \<in> set (filter (\<lambda>(k, v). map_of a k \<noteq> Some v) b)"
        by (rule map_of_SomeD)
      then have "(x, w) \<in> set b" and "map_of a x \<noteq> Some w" by auto
      with assms Some True show False by (auto dest: map_of_is_SomeI)
    qed
    with True Some xb show ?thesis by (simp add: map_add_def)
  next
    case False
    with mem have "(x, v) \<in> set (filter (\<lambda>(k, v). map_of a k \<noteq> Some v) b)" by simp
    with df have "map_of (filter (\<lambda>(k, v). map_of a k \<noteq> Some v) b) x = Some v"
      by (rule map_of_is_SomeI)
    with Some xb show ?thesis by (simp add: map_add_def)
  qed
qed

text \<open>
  C2. For all views \<open>a\<close> and \<open>b\<close> (records: no key occurs twice), the diff of \<open>a\<close> with
  itself is the empty patch, and applying the operations of \<open>diff a b\<close> in order to \<open>a\<close>
  gives a view with the same top-level keys as \<open>b\<close> and the same value under each.
\<close>

theorem diff_apply_roundtrip:
  assumes "distinct (map fst a)" and "distinct (map fst b)"
  shows "diff a a = [] \<and> map_of (apply_patch (diff a b) a) = map_of b"
proof
  show "diff a a = []"
    using assms(1) by (simp add: diff_def diff_same_filter diff_same_deletes)
next
  let ?ch = "filter (\<lambda>(k, v). map_of a k \<noteq> Some v) b"
  let ?a1 = "foldl apply_op a
               (map (\<lambda>(k, v). if map_of a k = None then Create k v else Update k v) ?ch)"
  have dch: "distinct (map fst ?ch)"
    using assms(2) by (rule distinct_map_filter)
  have a1: "map_of ?a1 = map_of a ++ map_of ?ch"
    using apply_sets [of a "\<lambda>k. map_of a k = None" ?ch] dch
    by (simp add: map_of_rev_distinct)
  show "map_of (apply_patch (diff a b) a) = map_of b"
  proof (rule ext)
    fix x
    have "map_of (apply_patch (diff a b) a) x
            = (if x \<in> fst ` set (filter (\<lambda>(k, v). map_of b k = None) a) then None
               else map_of ?a1 x)"
      by (simp add: apply_patch_def diff_def apply_deletes)
    also have "\<dots> = map_of b x"
    proof (cases "x \<in> fst ` set b")
      case True
      then have "map_of b x \<noteq> None" by (simp add: map_of_eq_None_iff)
      then have "x \<notin> fst ` set (filter (\<lambda>(k, v). map_of b k = None) a)" by auto
      with True show ?thesis
        by (simp add: a1 changed_fields [OF assms(2)])
    next
      case False
      then have nb: "map_of b x = None" by (simp add: map_of_eq_None_iff)
      show ?thesis
      proof (cases "x \<in> fst ` set a")
        case True
        with nb have "x \<in> fst ` set (filter (\<lambda>(k, v). map_of b k = None) a)"
          by (auto intro: rev_image_eqI)
        with nb show ?thesis by simp
      next
        case False
        then have "map_of a x = None" by (simp add: map_of_eq_None_iff)
        with \<open>x \<notin> fst ` set b\<close> nb False show ?thesis
          by (auto simp: a1 changed_fields [OF assms(2)])
      qed
    qed
    finally show "map_of (apply_patch (diff a b) a) x = map_of b x" .
  qed
qed

theorem diff_apply_roundtrip_witness:
  "diff [(''a'', 1::int), (''b'', 2)] [(''a'', 1), (''b'', 2)] = []
   \<and> map_of (apply_patch (diff [(''a'', 1::int), (''b'', 2)] [(''b'', 3), (''c'', 4)])
        [(''a'', 1), (''b'', 2)]) = map_of [(''b'', 3), (''c'', 4)]"
  using diff_apply_roundtrip [of "[(''a'', 1::int), (''b'', 2)]" "[(''b'', 3), (''c'', 4)]"]
  by simp

section \<open>Properties of patchState\<close>

lemmas example_defs = example_options_def pick_def example_selectors_def shallowDiff_spec_def
  throwing_store_def example_env_def example_request_def boom_request_def state_a1_b2_def
  state_a1_b3_def
  diff_def DISPATCH_TYPE_def STATE_TYPE_def PATCH_STATE_TYPE_def noop_def

lemma poster_simp:
  "serializedMessagePoster env m = [m\<lparr>msg_payload := serializer env (msg_payload m)\<rparr>]"
  by (simp add: serializedMessagePoster_def withSerializer_def)

lemma patch_selector_step:
  "patch_selector env st (prev, out) (k, sel) =
     (if shallowDiff env (prev k) (sel st) \<noteq> [] then prev(k := sel st) else prev,
      out @ patch_messages env st prev k sel)"
  by (simp add: Let_def poster_simp patch_message_def patch_messages_def)

lemma foldl_patch_selector:
  assumes "distinct (map fst sels)"
  shows "foldl (patch_selector env st) (prev, out) sels =
     ((\<lambda>k. case map_of sels k of None \<Rightarrow> prev k | Some sel \<Rightarrow> patched_view env st prev k sel),
      out @ concat (map (\<lambda>(k, sel). patch_messages env st prev k sel) sels))"
  using assms
proof (induction sels arbitrary: prev out)
  case Nil
  show ?case by simp
next
  case (Cons x sels)
  obtain k0 sel0 where x: "x = (k0, sel0)" by (cases x)
  from Cons.prems x have notin: "k0 \<notin> fst ` set sels" and dist: "distinct (map fst sels)"
    by auto
  have none: "map_of sels k0 = None"
    using notin by (simp add: map_of_eq_None_iff)
  define prev1 where
    "prev1 = (if shallowDiff env (prev k0) (sel0 st) \<noteq> [] then prev(k0 := sel0 st) else prev)"
  have other: "prev1 k = prev k" if "k \<noteq> k0" for k
    using that by (simp add: prev1_def)
  have at_k0: "prev1 k0 = patched_view env st prev k0 sel0"
    by (simp add: prev1_def patched_view_def)
  have same: "k \<noteq> k0" if "(k, sel) \<in> set sels" for k sel
    using that notin by (auto intro: rev_image_eqI)
  have msgs: "map (\<lambda>(k, sel). patch_messages env st prev1 k sel) sels
        = map (\<lambda>(k, sel). patch_messages env st prev k sel) sels"
    by (rule map_cong) (auto simp: patch_messages_def other dest: same)
  have cache: "(case map_of sels k of None \<Rightarrow> prev1 k
                 | Some sel \<Rightarrow> patched_view env st prev1 k sel)
        = (case map_of (x # sels) k of None \<Rightarrow> prev k
                 | Some sel \<Rightarrow> patched_view env st prev k sel)" for k
  proof (cases "k = k0")
    case True
    with none x at_k0 show ?thesis by simp
  next
    case False
    with x other [of k] show ?thesis
      by (simp add: patched_view_def split: option.splits)
  qed
  have "foldl (patch_selector env st) (prev, out) (x # sels)
          = foldl (patch_selector env st) (prev1, out @ patch_messages env st prev k0 sel0) sels"
    by (simp add: x patch_selector_step prev1_def del: patch_selector.simps)
  also have "\<dots> = ((\<lambda>k. case map_of sels k of None \<Rightarrow> prev1 k
                          | Some sel \<Rightarrow> patched_view env st prev1 k sel),
       (out @ patch_messages env st prev k0 sel0)
         @ concat (map (\<lambda>(k, sel). patch_messages env st prev1 k sel) sels))"
    by (rule Cons.IH [OF dist])
  also have "\<dots> = ((\<lambda>k. case map_of (x # sels) k of None \<Rightarrow> prev k
                          | Some sel \<Rightarrow> patched_view env st prev k sel),
       out @ concat (map (\<lambda>(k, sel). patch_messages env st prev k sel) (x # sels)))"
    by (simp add: msgs cache x)
  finally show ?case .
qed

lemma patchState_eq:
  assumes "distinct (map fst (selectors env))"
  shows "patchState env st prev =
     ((\<lambda>k. case map_of (selectors env) k of None \<Rightarrow> prev k
            | Some sel \<Rightarrow> patched_view env st prev k sel),
      concat (map (\<lambda>(k, sel). patch_messages env st prev k sel) (selectors env)))"
  using foldl_patch_selector [OF assms, of env st prev "[]"] by (simp add: patchState_def)

lemma patch_messages_key:
  "m \<in> set (patch_messages env st prev k sel) \<Longrightarrow> msg_key m = k \<and> msg_type m = PATCH_STATE_TYPE"
  by (auto simp: patch_messages_def patch_message_def split: if_splits)

lemma filter_key_concat:
  assumes "distinct (map fst sels)" and "(k, sel) \<in> set sels"
    and keyed: "\<And>k' sel' m. m \<in> set (g k' sel') \<Longrightarrow> msg_key m = k'"
  shows "filter (\<lambda>m. msg_key m = k) (concat (map (\<lambda>(k, sel). g k sel) sels)) = g k sel"
  using assms(1,2)
proof (induction sels)
  case Nil
  then show ?case by simp
next
  case (Cons x sels)
  obtain k0 sel0 where x: "x = (k0, sel0)" by (cases x)
  have here: "filter (\<lambda>m. msg_key m = k) (g k0 sel0) = (if k0 = k then g k0 sel0 else [])"
    by (auto simp: filter_empty_conv filter_id_conv dest: keyed)
  have rest_none: "filter (\<lambda>m. msg_key m = k) (concat (map (\<lambda>(k, sel). g k sel) sels)) = []"
    if "k \<notin> fst ` set sels"
    using that by (auto simp: filter_empty_conv dest!: keyed intro: rev_image_eqI)
  show ?case
  proof (cases "k0 = k")
    case True
    with Cons.prems x have "sel0 = sel" and "k \<notin> fst ` set sels"
      by (auto intro: rev_image_eqI)
    with True x here rest_none show ?thesis by simp
  next
    case False
    with Cons.prems x have "(k, sel) \<in> set sels" and "distinct (map fst sels)" by auto
    with Cons.IH False x here show ?thesis by simp
  qed
qed

lemma patchState_key:
  assumes "distinct (map fst (selectors env))" and "(k, sel) \<in> set (selectors env)"
  shows "fst (patchState env st prev) k = patched_view env st prev k sel"
    and "filter (\<lambda>m. msg_key m = k) (snd (patchState env st prev)) = patch_messages env st prev k sel"
proof -
  from assms have "map_of (selectors env) k = Some sel" by (rule map_of_is_SomeI)
  then show "fst (patchState env st prev) k = patched_view env st prev k sel"
    by (simp add: patchState_eq [OF assms(1)])
  show "filter (\<lambda>m. msg_key m = k) (snd (patchState env st prev)) = patch_messages env st prev k sel"
    by (simp add: patchState_eq [OF assms(1)])
      (rule filter_key_concat [OF assms], simp add: patch_messages_key)
qed

lemma patchState_types:
  "m \<in> set (snd (foldl (patch_selector env st) (prev, out) sels))
     \<Longrightarrow> m \<in> set out \<or> msg_type m = PATCH_STATE_TYPE"
proof (induction sels arbitrary: prev out)
  case Nil
  then show ?case by simp
next
  case (Cons x sels)
  obtain k0 sel0 where x: "x = (k0, sel0)" by (cases x)
  from Cons.prems x
  have "m \<in> set (snd (foldl (patch_selector env st)
          (if shallowDiff env (prev k0) (sel0 st) \<noteq> [] then prev(k0 := sel0 st) else prev,
           out @ patch_messages env st prev k0 sel0) sels))"
    by (simp add: patch_selector_step del: patch_selector.simps)
  from Cons.IH [OF this] show ?case
    by (auto dest: patch_messages_key)
qed

lemma patchState_posts_patches:
  "m \<in> set (snd (patchState env st prev)) \<Longrightarrow> msg_type m = PATCH_STATE_TYPE"
  using patchState_types [of m env st prev "[]" "selectors env"] by (simp add: patchState_def)





lemma patchState_empty_diff:
  assumes "distinct (map fst (selectors env))" and "(k, sel) \<in> set (selectors env)"
    and "shallowDiff env (prev k) (sel st) = []"
  shows "filter (\<lambda>m. msg_key m = k) (snd (patchState env st prev)) = []"
    and "fst (patchState env st prev) k = prev k"
  using assms(3)
  by (simp_all add: patchState_key [OF assms(1,2)] patch_messages_def patched_view_def)

section \<open>Properties of dispatchResponse\<close>

lemma map_of_foldl_update:
  "map_of (foldl (\<lambda>a (k, v). AList.update k v a) a ps) = map_of a ++ map_of (rev ps)"
proof (induction ps arbitrary: a)
  case Nil
  show ?case by simp
next
  case (Cons p ps)
  obtain k v where p: "p = (k, v)" by (cases p)
  have "map_of (AList.update k v a) ++ map_of (rev ps)
          = map_of a ++ ([k \<mapsto> v] ++ map_of (rev ps))"
    by (rule ext) (simp add: update_conv' map_add_def split: option.splits)
  with Cons.IH [of "AList.update k v a"] p show ?case
    by (simp add: map_add_assoc)
qed

lemma assign_props_target:
  "h t = Obj kvs
     \<Longrightarrow> assign_props h t ps = h(t := Obj (foldl (\<lambda>a (k, v). AList.update k v a) kvs ps))"
proof (induction ps arbitrary: h kvs)
  case Nil
  then show ?case by auto
next
  case (Cons p ps)
  obtain k v where p: "p = (k, v)" by (cases p)
  let ?h = "h(t := Obj (AList.update k v kvs))"
  have "assign_props h t (p # ps) = assign_props ?h t ps"
    using Cons.prems p by (simp del: fun_upd_apply)
  also have "\<dots> = ?h(t := Obj (foldl (\<lambda>a (k, v). AList.update k v a) (AList.update k v kvs) ps))"
    by (rule Cons.IH) simp
  also have "\<dots> = h(t := Obj (foldl (\<lambda>a (k, v). AList.update k v a) kvs (p # ps)))"
    using p by (simp del: fun_upd_apply)
  finally show ?case .
qed

lemma make_action_eq:
  "make_action payload sender =
     (action_cells payload sender)
       (2 := Obj (AList.update ''_sender'' sender
                   (foldl (\<lambda>a (k, v). AList.update k v a) [] (own_props payload))))"
proof -
  let ?h0 = "action_cells payload sender"
  let ?kvs = "foldl (\<lambda>a (k, v). AList.update k v a) [] (own_props payload)"
  let ?h1 = "?h0(2 := Obj ?kvs)"
  have t0: "?h0 2 = Obj []" and s0: "?h0 0 = payload"
    by (simp_all add: action_cells_def)
  have step1: "assign_props ?h0 2 (own_props payload) = ?h1"
    using t0 by (rule assign_props_target)
  have s1: "?h1 1 = Obj [(''_sender'', sender)]"
    by (simp add: action_cells_def)
  have "assign_props ?h1 2 [(''_sender'', sender)]
          = ?h1(2 := Obj (foldl (\<lambda>a (k, v). AList.update k v a) ?kvs [(''_sender'', sender)]))"
    by (rule assign_props_target) simp
  then have step2: "assign_props ?h1 2 [(''_sender'', sender)]
          = ?h0(2 := Obj (AList.update ''_sender'' sender ?kvs))"
    by (simp del: fun_upd_apply assign_props.simps)
  have "make_action payload sender = assign_props (assign_props ?h0 2 (own_props (?h0 0))) 2
          (own_props (assign_props ?h0 2 (own_props (?h0 0)) 1))"
    by (simp add: make_action_def del: fun_upd_apply assign_props.simps)
  also have "\<dots> = assign_props ?h1 2 (own_props (?h1 1))"
    by (simp only: s0 step1)
  also have "\<dots> = assign_props ?h1 2 [(''_sender'', sender)]"
    by (simp only: s1 own_props.simps)
  also note step2
  finally show ?thesis .
qed

lemma make_action_fields:
  "\<exists>kvs. make_action payload sender 2 = Obj kvs
         \<and> map_of kvs = (map_of (rev (own_props payload)))(''_sender'' \<mapsto> sender)"
  by (simp add: make_action_eq update_conv' map_of_foldl_update)


lemma dispatched_notify: "dispatched (notify h) = dispatched h"
  by (simp add: notify_def)

lemma dispatched_respond: "dispatched (snd (snd (respond f r h))) = dispatched h"
  by (cases f) simp_all

lemma dispatched_call:
  "dispatched (snd (call_dispatch env action h)) = dispatched h @ [action]"
  by (simp add: call_dispatch_def Let_def dispatched_notify)

lemma dispatchResponse_dispatched:
  assumes "shouldDeserialize env r"
  shows "dispatched (snd (snd (dispatchResponse env r sender h)))
           = dispatched h @ [make_action (req_payload r) sender 2]"
proof -
  obtain oc h1 where c: "call_dispatch env (make_action (req_payload r) sender 2) h = (oc, h1)"
    by (cases "call_dispatch env (make_action (req_payload r) sender 2) h")
  with dispatched_call [of env "make_action (req_payload r) sender 2" h]
  have d: "dispatched h1 = dispatched h @ [make_action (req_payload r) sender 2]" by simp
  from assms c d show ?thesis
    by (auto simp: dispatchResponse_def shouldDeserialize_def Let_def dispatched_respond
        split: dispatch_outcome.splits sum.splits)
qed

lemma handler_dispatched:
  assumes "shouldDeserialize env r"
  shows "dispatched (snd (snd (withDeserializer (deserializer env) (dispatchResponse env)
             (shouldDeserialize env) r sender h)))
           = dispatched h @ [make_action (deserializer env (req_payload r)) sender 2]"
proof -
  from assms have "shouldDeserialize env (r\<lparr>req_payload := deserializer env (req_payload r)\<rparr>)"
    by (simp add: shouldDeserialize_def)
  from dispatchResponse_dispatched [OF this] assms show ?thesis
    by (simp add: withDeserializer_def)
qed

lemma example_request_accepted: "shouldDeserialize example_env example_request"
  by (simp add: shouldDeserialize_def example_env_def example_request_def)



text \<open>
  C10. For two handled requests with the same sender metadata, whatever their payloads
  (and whatever \<^verbatim>\<open>_sender\<close> a payload carries) and whatever the hub's state, the actions
  passed to \<^verbatim>\<open>store.dispatch\<close> have the same \<^verbatim>\<open>_sender\<close>: the transport's sender.
\<close>

theorem sender_from_transport_only:
  assumes "shouldDeserialize env r1" and "shouldDeserialize env r2"
  shows "\<exists>kvs1 kvs2.
           dispatched (snd (snd (withDeserializer (deserializer env) (dispatchResponse env)
               (shouldDeserialize env) r1 sender h1))) = dispatched h1 @ [Obj kvs1]
         \<and> dispatched (snd (snd (withDeserializer (deserializer env) (dispatchResponse env)
               (shouldDeserialize env) r2 sender h2))) = dispatched h2 @ [Obj kvs2]
         \<and> map_of kvs1 ''_sender'' = Some sender
         \<and> map_of kvs2 ''_sender'' = Some sender"
proof -
  obtain kvs1 where k1: "make_action (deserializer env (req_payload r1)) sender 2 = Obj kvs1"
    and m1: "map_of kvs1 ''_sender'' = Some sender"
    using make_action_fields [of "deserializer env (req_payload r1)" sender] by auto
  obtain kvs2 where k2: "make_action (deserializer env (req_payload r2)) sender 2 = Obj kvs2"
    and m2: "map_of kvs2 ''_sender'' = Some sender"
    using make_action_fields [of "deserializer env (req_payload r2)" sender] by auto
  from k1 k2 m1 m2 handler_dispatched [OF assms(1)] handler_dispatched [OF assms(2)]
  show ?thesis by auto
qed

theorem sender_from_transport_only_witness:
  "\<exists>kvs1 kvs2.
      dispatched (snd (snd (withDeserializer (deserializer example_env)
          (dispatchResponse example_env) (shouldDeserialize example_env)
          example_request (Str ''tab'') (initial_hub Null)))) = [Obj kvs1]
    \<and> dispatched (snd (snd (withDeserializer (deserializer example_env)
          (dispatchResponse example_env) (shouldDeserialize example_env)
          (example_request\<lparr>req_payload := Obj [(''_sender'', Num 7)]\<rparr>) (Str ''tab'')
          (initial_hub Null)))) = [Obj kvs2]
    \<and> map_of kvs1 ''_sender'' = Some (Str ''tab'')
    \<and> map_of kvs2 ''_sender'' = Some (Str ''tab'')"
proof -
  have a: "shouldDeserialize example_env (example_request\<lparr>req_payload := Obj [(''_sender'', Num 7)]\<rparr>)"
    using example_request_accepted by (simp add: shouldDeserialize_def)
  from sender_from_transport_only [OF example_request_accepted a, of "Str ''tab''"
      "initial_hub Null" "initial_hub Null"]
  show ?thesis by (simp add: initial_hub_def)
qed

text \<open>
  C1. The scenario of spec 8 on the code: the wrapped store with default options receives
  the dispatch request while \<^verbatim>\<open>store.dispatch\<close> throws \<^verbatim>\<open>Error("boom")\<close>. The handler returns
  \<^verbatim>\<open>true\<close> and does not throw, and one response is sent; its \<^verbatim>\<open>error\<close> is \<^verbatim>\<open>undefined\<close>, not
  \<^verbatim>\<open>"boom"\<close>: the catch block rejects with \<^verbatim>\<open>e.message\<close>, a string, and the responder
  reads \<^verbatim>\<open>.message\<close> of it once more.
\<close>

theorem sync_throw_reply_lacks_message:
  "map (\<lambda>listener. case listener boom_request (Str ''tab'') (initial_hub Null) of
          (res, sent, h) \<Rightarrow> (res, sent)) (onMessage example_runtime)
   = [(Returned (Bool True), [Obj [(''error'', Undefined), (''value'', Null)]])]"
  by (simp add: example_runtime_def example_defs wrapStoreSelectors_def register_def
      empty_runtime_def withDeserializer_def shouldDeserialize_def dispatchResponse_def
      call_dispatch_def initial_hub_def promiseResponder_def envelope_def Let_def)

section \<open>Properties of wrapStoreSelectors and wrapStore\<close>

text \<open>
  C7. \<^verbatim>\<open>wrapStoreSelectors\<close> throws exactly when \<^verbatim>\<open>portName\<close> is missing (the code's test is
  \<^verbatim>\<open>!portName\<close>: \<^verbatim>\<open>undefined\<close>, or another falsy value), or \<^verbatim>\<open>serializer\<close> is neither a
  function nor left to its default, or \<^verbatim>\<open>deserializer\<close> is neither a function nor left to
  its default; and when it throws, \<^verbatim>\<open>chrome.runtime\<close> is as before the call: no listener
  has been registered.
\<close>

theorem wrap_throws_iff:
  "(fst (wrapStoreSelectors diff_fn store sels opts rt) \<noteq> None
      \<longleftrightarrow> \<not> truthy (opt_portName opts)
          \<or> \<not> (is_function (opt_serializer opts) \<or> opt_serializer opts = Val Undefined)
          \<or> \<not> (is_function (opt_deserializer opts) \<or> opt_deserializer opts = Val Undefined))
   \<and> (fst (wrapStoreSelectors diff_fn store sels opts rt) \<noteq> None
      \<longrightarrow> snd (wrapStoreSelectors diff_fn store sels opts rt) = rt)"
proof -
  have d: "(\<exists>f. with_default x noop = Fn f) \<longleftrightarrow> is_function x \<or> x = Val Undefined"
    for x :: "(jsval \<Rightarrow> jsval) arg"
    by (cases "(x, noop)" rule: with_default.cases) auto
  show ?thesis
    using d [of "opt_serializer opts"] d [of "opt_deserializer opts"]
    by (auto simp: wrapStoreSelectors_def split: arg.splits)
qed

theorem wrap_throws_iff_witness:
  "fst (wrapStoreSelectors shallowDiff_spec throwing_store example_selectors
          (example_options\<lparr>opt_portName := Undefined\<rparr>) (empty_runtime True)) \<noteq> None
   \<and> snd (wrapStoreSelectors shallowDiff_spec throwing_store example_selectors
          (example_options\<lparr>opt_portName := Undefined\<rparr>) (empty_runtime True))
       = empty_runtime True
   \<and> fst (wrapStoreSelectors shallowDiff_spec throwing_store example_selectors
          example_options (empty_runtime True)) = None"
  using wrap_throws_iff [of shallowDiff_spec throwing_store example_selectors
      "example_options\<lparr>opt_portName := Undefined\<rparr>" "empty_runtime True"]
    wrap_throws_iff [of shallowDiff_spec throwing_store example_selectors
      example_options "empty_runtime True"]
  by (simp add: example_options_def)

text \<open>
  What the single identity selector means for a channel: it is bound to the whole state.
  The \<^verbatim>\<open>STATE\<close> message carries the state, the cached view is the state last sent, and
  a notification posts the diff between the cached state and the new one, if not empty.
\<close>

lemma single_identity_selector:
  assumes "selectors env = [(k0, \<lambda>state. state)]"
  shows "initial_views env s k0 = s"
    and "initial_messages env (initial_views env s)
           = [\<lparr>msg_type = STATE_TYPE, msg_key = k0, msg_payload = serializer env s\<rparr>]"
    and "patchState env s' prev =
           (if shallowDiff env (prev k0) s' \<noteq> []
            then (prev(k0 := s'),
                  [\<lparr>msg_type = PATCH_STATE_TYPE, msg_key = k0,
                    msg_payload = serializer env (Arr (shallowDiff env (prev k0) s'))\<rparr>])
            else (prev, []))"
  using assms
  by (simp_all add: initial_views_def initial_messages_def patchState_def poster_simp Let_def)

text \<open>
  C9. For every store, diff function, options object and runtime, \<^verbatim>\<open>wrapStore\<close> does what
  \<^verbatim>\<open>wrapStoreSelectors\<close> does with the selector map whose only entry is the identity on the
  state under the default selector key: the same exception or the same registered
  listeners, hence the same hub after every sequence of events (the same messages
  posted, actions dispatched and responses sent).
\<close>

theorem wrapStore_is_single_identity_selector:
  "wrapStore DEFAULT_SELECTOR diff_fn store opts rt
     = wrapStoreSelectors diff_fn store [(DEFAULT_SELECTOR, \<lambda>state. state)] opts rt
   \<and> run (snd (wrapStore DEFAULT_SELECTOR diff_fn store opts rt)) h evs
     = run (snd (wrapStoreSelectors diff_fn store [(DEFAULT_SELECTOR, \<lambda>state. state)] opts rt))
         h evs"
  by (simp add: wrapStore_def)

section \<open>Properties of the hub over time\<close>

subsection \<open>Posting and notifying\<close>

lemma length_post_all [simp]: "length (post_all p ms ps) = length ps"
  by (simp add: post_all_def)

lemma nth_post_all:
  "q < length ps \<Longrightarrow> post_all p ms ps ! q =
     (if q = p then (ps ! q)\<lparr>posted := posted (ps ! q) @ ms\<rparr> else ps ! q)"
  by (simp add: post_all_def nth_list_update)

lemma foldl_post_all_length [simp]:
  "length (foldl (\<lambda>ps l. post_all (f l) (g l) ps) ps ls) = length ps"
  by (induction ls arbitrary: ps) simp_all

lemma foldl_post_all_nth:
  "q < length ps \<Longrightarrow>
     foldl (\<lambda>ps l. post_all (f l) (g l) ps) ps ls ! q =
       (ps ! q)\<lparr>posted := posted (ps ! q) @ concat (map g (filter (\<lambda>l. f l = q) ls))\<rparr>"
proof (induction ls arbitrary: ps)
  case Nil
  show ?case by simp
next
  case (Cons l ls)
  then have "q < length (post_all (f l) (g l) ps)" by simp
  from Cons.IH [OF this] Cons.prems show ?case
    by (simp add: nth_post_all)
qed

lemma notify_length [simp]: "length (ports (notify h)) = length (ports h)"
  by (simp add: notify_def)

lemma notify_nth:
  "q < length (ports h) \<Longrightarrow>
     ports (notify h) ! q =
       (ports h ! q)\<lparr>posted := posted (ports h ! q) @
          concat (map (\<lambda>l. snd (patchState (sub_env l) (store_state h) (prevStates l)))
            (filter (\<lambda>l. sub_port l = q) (subscribers h)))\<rparr>"
  by (simp add: notify_def foldl_post_all_nth)

lemma notify_sub_port [simp]:
  "map sub_port (subscribers (notify h)) = map sub_port (subscribers h)"
  by (simp add: notify_def)

lemma notify_sub_id [simp]:
  "map sub_id (subscribers (notify h)) = map sub_id (subscribers h)"
  by (simp add: notify_def)

lemma notify_posted:
  assumes "q < length (ports h)"
  shows "\<exists>extra. posted (ports (notify h) ! q) = posted (ports h ! q) @ extra
           \<and> (\<forall>m \<in> set extra. msg_type m = PATCH_STATE_TYPE)
           \<and> (q \<notin> sub_port ` set (subscribers h) \<longrightarrow> extra = [])"
proof -
  let ?extra = "concat (map (\<lambda>l. snd (patchState (sub_env l) (store_state h) (prevStates l)))
            (filter (\<lambda>l. sub_port l = q) (subscribers h)))"
  have "posted (ports (notify h) ! q) = posted (ports h ! q) @ ?extra"
    using assms by (simp add: notify_nth)
  moreover have "\<forall>m \<in> set ?extra. msg_type m = PATCH_STATE_TYPE"
    by (auto dest: patchState_posts_patches)
  moreover have "q \<notin> sub_port ` set (subscribers h) \<longrightarrow> ?extra = []"
    by (auto simp: filter_empty_conv)
  ultimately show ?thesis by blast
qed

lemma notify_port_frame:
  assumes "q < length (ports h)"
  shows "port_name (ports (notify h) ! q) = port_name (ports h ! q)"
    and "onDisconnect (ports (notify h) ! q) = onDisconnect (ports h ! q)"
  using assms by (simp_all add: notify_nth)

lemma notify_sub_port_set:
  "sub_port ` set (subscribers (notify h)) = sub_port ` set (subscribers h)"
  by (simp add: notify_def image_image)

subsection \<open>Connecting\<close>



lemma new_port_sel [simp]:
  "port_name (new_port nm) = nm" "posted (new_port nm) = []" "onDisconnect (new_port nm) = []"
  by (simp_all add: new_port_def)

lemma connect_other:
  "\<not> strict_eq nm (portName env) \<Longrightarrow>
     connectState env (length (ports h)) (h\<lparr>ports := ports h @ [new_port nm]\<rparr>)
       = h\<lparr>ports := ports h @ [new_port nm]\<rparr>"
  by (simp add: connectState_def new_port_def)

lemma connect_matching:
  "strict_eq nm (portName env) \<Longrightarrow>
     connectState env (length (ports h)) (h\<lparr>ports := ports h @ [new_port nm]\<rparr>)
       = h\<lparr>subscribers := subscribers h @
             [\<lparr>sub_id = next_id h, sub_port = length (ports h), sub_env = env,
               prevStates = initial_views env (store_state h)\<rparr>],
           next_id := Suc (next_id h),
           ports := ports h @
             [\<lparr>port_name = nm,
               posted = initial_messages env (initial_views env (store_state h)),
               onDisconnect = [next_id h]\<rparr>]\<rparr>"
  by (simp add: connectState_def new_port_def Let_def post_all_def)

lemma connect_ports:
  "ports (connectState env (length (ports h)) (h\<lparr>ports := ports h @ [new_port nm]\<rparr>))
     = ports h @
       [if strict_eq nm (portName env)
        then \<lparr>port_name = nm,
              posted = initial_messages env (initial_views env (store_state h)),
              onDisconnect = [next_id h]\<rparr>
        else new_port nm]"
  by (simp add: connect_other connect_matching)

lemma connect_subscribers:
  "subscribers (connectState env (length (ports h)) (h\<lparr>ports := ports h @ [new_port nm]\<rparr>))
     = subscribers h @
       (if strict_eq nm (portName env)
        then [\<lparr>sub_id = next_id h, sub_port = length (ports h), sub_env = env,
               prevStates = initial_views env (store_state h)\<rparr>]
        else [])"
  by (simp add: connect_other connect_matching)

subsection \<open>Messages\<close>

lemma notify_state_only:
  "ports (notify (h\<lparr>store_state := s, dispatched := d\<rparr>)) = ports (notify (h\<lparr>store_state := s\<rparr>))"
  "subscribers (notify (h\<lparr>store_state := s, dispatched := d\<rparr>))
     = subscribers (notify (h\<lparr>store_state := s\<rparr>))"
  by (simp_all add: notify_def)

lemma store_state_notify [simp]: "store_state (notify h) = store_state h"
  by (simp add: notify_def)

lemma call_dispatch_state:
  "(ports (snd (call_dispatch env a h)) = ports h
      \<and> subscribers (snd (call_dispatch env a h)) = subscribers h)
   \<or> (ports (snd (call_dispatch env a h))
        = ports (notify (h\<lparr>store_state := store_state (snd (call_dispatch env a h))\<rparr>))
      \<and> subscribers (snd (call_dispatch env a h))
        = subscribers (notify (h\<lparr>store_state := store_state (snd (call_dispatch env a h))\<rparr>)))"
  by (auto simp: call_dispatch_def Let_def notify_state_only)

lemma respond_hub: "snd (snd (respond f r h)) = h"
  by (cases f) simp_all

lemma dispatchResponse_state:
  fixes env r sender h
  defines "h' \<equiv> snd (snd (dispatchResponse env r sender h))"
  shows "(ports h' = ports h \<and> subscribers h' = subscribers h)
   \<or> (ports h' = ports (notify (h\<lparr>store_state := store_state h'\<rparr>))
      \<and> subscribers h' = subscribers (notify (h\<lparr>store_state := store_state h'\<rparr>)))"
proof (cases "shouldDeserialize env r")
  case False
  then show ?thesis by (auto simp: h'_def dispatchResponse_def shouldDeserialize_def)
next
  case True
  let ?a = "make_action (req_payload r) sender 2"
  obtain oc h1 where c: "call_dispatch env ?a h = (oc, h1)"
    by (cases "call_dispatch env ?a h")
  have "ports h' = ports h1 \<and> subscribers h' = subscribers h1 \<and> store_state h' = store_state h1"
    using True c
    by (auto simp: h'_def dispatchResponse_def shouldDeserialize_def Let_def respond_hub
        split: dispatch_outcome.splits sum.splits)
  with call_dispatch_state [of env ?a h] c show ?thesis by simp
qed

lemma deliver_state:
  fixes env r sender h
  defines "h' \<equiv> deliver r sender h
     (withDeserializer (deserializer env) (dispatchResponse env) (shouldDeserialize env))"
  shows "(ports h' = ports h \<and> subscribers h' = subscribers h)
   \<or> (ports h' = ports (notify (h\<lparr>store_state := store_state h'\<rparr>))
      \<and> subscribers h' = subscribers (notify (h\<lparr>store_state := store_state h'\<rparr>)))"
proof -
  define r' where "r' = (if shouldDeserialize env r
     then r\<lparr>req_payload := deserializer env (req_payload r)\<rparr> else r)"
  obtain res sent h1 where d: "dispatchResponse env r' sender h = (res, sent, h1)"
    by (cases "dispatchResponse env r' sender h")
  have "ports h' = ports h1 \<and> subscribers h' = subscribers h1 \<and> store_state h' = store_state h1"
    using d by (cases res) (auto simp: h'_def deliver_def withDeserializer_def r'_def)
  with dispatchResponse_state [of env r' sender h] d show ?thesis by simp
qed

subsection \<open>Steps of a wrapped hub\<close>

lemma register_empty:
  "register env (empty_runtime ext) =
     \<lparr>onMessage = [withDeserializer (deserializer env) (dispatchResponse env) (shouldDeserialize env)],
      onMessageExternal = (if ext then Some [withDeserializer (deserializer env)
          (dispatchResponse env) (shouldDeserialize env)] else None),
      onConnect = [connectState env],
      onConnectExternal = (if ext then Some [connectState env] else None),
      warnings = (if ext then [] else [''runtime.onMessageExternal is not supported'',
          ''runtime.onConnectExternal is not supported''])\<rparr>"
  by (simp add: register_def empty_runtime_def Let_def)

lemma foldl_unsubscribe:
  "foldl (\<lambda>h1 i. unsubscribe i h1) h ids
     = h\<lparr>subscribers := filter (\<lambda>l. sub_id l \<notin> set ids) (subscribers h)\<rparr>"
proof (induction ids arbitrary: h)
  case Nil
  show ?case by simp
next
  case (Cons i ids)
  have "foldl (\<lambda>h1 i. unsubscribe i h1) h (i # ids)
          = foldl (\<lambda>h1 i. unsubscribe i h1) (unsubscribe i h) ids"
    by simp
  also have "\<dots> = (unsubscribe i h)\<lparr>subscribers :=
       filter (\<lambda>l. sub_id l \<notin> set ids) (subscribers (unsubscribe i h))\<rparr>"
    by (rule Cons.IH)
  also have "\<dots> = h\<lparr>subscribers := filter (\<lambda>l. sub_id l \<notin> set (i # ids)) (subscribers h)\<rparr>"
    by (simp add: unsubscribe_def)
  finally show ?case .
qed

lemma step_state_cases:
  fixes env ext h e
  defines "h' \<equiv> step (register env (empty_runtime ext)) h e"
  shows "(ports h' = ports h \<and> subscribers h' = subscribers h)
    \<or> (ports h' = ports (notify (h\<lparr>store_state := store_state h'\<rparr>))
          \<and> subscribers h' = subscribers (notify (h\<lparr>store_state := store_state h'\<rparr>)))
    \<or> (\<exists>nm. h' = connectState env (length (ports h)) (h\<lparr>ports := ports h @ [new_port nm]\<rparr>))
    \<or> (\<exists>p < length (ports h). ports h' = ports h
          \<and> subscribers h' = filter (\<lambda>l. sub_id l \<notin> set (onDisconnect (ports h ! p)))
               (subscribers h))"
proof (cases e)
  case (Connect src nm)
  then show ?thesis
    by (cases src) (auto simp: h'_def step_def register_empty)
next
  case (Disconnect p)
  note foldl_unsubscribe
  with Disconnect show ?thesis
    by (auto simp: h'_def step_def)
next
  case (Changed s)
  then show ?thesis
    by (auto simp: h'_def step_def)
next
  case (Message src r sender)
  show ?thesis
  proof (cases "occurs (register env (empty_runtime ext)) e")
    case False
    then show ?thesis by (simp add: h'_def step_def)
  next
    case True
    with Message have "h' = deliver r sender h
       (withDeserializer (deserializer env) (dispatchResponse env) (shouldDeserialize env))"
      by (cases src) (auto simp: h'_def step_def register_empty split: if_splits)
    with deliver_state [of r sender h env] show ?thesis by blast
  qed
qed

lemma step_rule:
  assumes same: "\<And>h'. ports h' = ports h \<Longrightarrow> subscribers h' = subscribers h \<Longrightarrow> P h'"
    and notified: "\<And>h' s. ports h' = ports (notify (h\<lparr>store_state := s\<rparr>))
        \<Longrightarrow> subscribers h' = subscribers (notify (h\<lparr>store_state := s\<rparr>)) \<Longrightarrow> P h'"
    and connected: "\<And>nm. P (connectState env (length (ports h))
        (h\<lparr>ports := ports h @ [new_port nm]\<rparr>))"
    and disconnected: "\<And>h' p. p < length (ports h) \<Longrightarrow> ports h' = ports h
        \<Longrightarrow> subscribers h' = filter (\<lambda>l. sub_id l \<notin> set (onDisconnect (ports h ! p)))
               (subscribers h) \<Longrightarrow> P h'"
  shows "P (step (register env (empty_runtime ext)) h e)"
  using step_state_cases [of env ext h e]
proof (elim disjE exE conjE)
  assume "ports (step (register env (empty_runtime ext)) h e) = ports h"
    "subscribers (step (register env (empty_runtime ext)) h e) = subscribers h"
  then show ?thesis by (rule same)
next
  let ?s = "store_state (step (register env (empty_runtime ext)) h e)"
  assume "ports (step (register env (empty_runtime ext)) h e)
            = ports (notify (h\<lparr>store_state := ?s\<rparr>))"
    "subscribers (step (register env (empty_runtime ext)) h e)
            = subscribers (notify (h\<lparr>store_state := ?s\<rparr>))"
  then show ?thesis by (rule notified)
next
  fix nm
  assume "step (register env (empty_runtime ext)) h e
            = connectState env (length (ports h)) (h\<lparr>ports := ports h @ [new_port nm]\<rparr>)"
  with connected [of nm] show ?thesis by simp
next
  fix p
  assume "p < length (ports h)"
    "ports (step (register env (empty_runtime ext)) h e) = ports h"
    "subscribers (step (register env (empty_runtime ext)) h e)
       = filter (\<lambda>l. sub_id l \<notin> set (onDisconnect (ports h ! p))) (subscribers h)"
  then show ?thesis by (rule disconnected)
qed

subsection \<open>Invariants\<close>





lemma consistent_notify:
  assumes "consistent h"
  shows "consistent (notify h)"
  unfolding consistent_def
proof
  fix l'
  assume "l' \<in> set (subscribers (notify h))"
  then obtain l where l: "l \<in> set (subscribers h)"
    and eq: "sub_port l' = sub_port l" "sub_id l' = sub_id l"
    by (auto simp: notify_def)
  from assms l have "sub_port l < length (ports h)"
    and "sub_id l \<in> set (onDisconnect (ports h ! sub_port l))"
    by (auto simp: consistent_def)
  with eq show "sub_port l' < length (ports (notify h))
      \<and> sub_id l' \<in> set (onDisconnect (ports (notify h) ! sub_port l'))"
    by (simp add: notify_port_frame)
qed

lemma consistent_connect:
  assumes "consistent h"
  shows "consistent (connectState env (length (ports h)) (h\<lparr>ports := ports h @ [new_port nm]\<rparr>))"
  unfolding consistent_def connect_ports connect_subscribers
proof
  let ?np = "if strict_eq nm (portName env)
        then \<lparr>port_name = nm,
              posted = initial_messages env (initial_views env (store_state h)),
              onDisconnect = [next_id h]\<rparr>
        else new_port nm"
  let ?new = "if strict_eq nm (portName env)
        then [\<lparr>sub_id = next_id h, sub_port = length (ports h), sub_env = env,
               prevStates = initial_views env (store_state h)\<rparr>]
        else []"
  fix l
  assume "l \<in> set (subscribers h @ ?new)"
  then consider "l \<in> set (subscribers h)" | "l \<in> set ?new" by auto
  then show "sub_port l < length (ports h @ [?np])
      \<and> sub_id l \<in> set (onDisconnect ((ports h @ [?np]) ! sub_port l))"
  proof cases
    case 1
    with assms have "sub_port l < length (ports h)"
      and "sub_id l \<in> set (onDisconnect (ports h ! sub_port l))"
      by (auto simp: consistent_def)
    then show ?thesis by (simp add: nth_append)
  next
    case 2
    then show ?thesis by (simp split: if_splits)
  qed
qed

lemma consistent_step:
  assumes "consistent h"
  shows "consistent (step (register env (empty_runtime ext)) h e)"
proof (rule step_rule [where P = consistent])
  fix h' :: hub
  assume "ports h' = ports h" "subscribers h' = subscribers h"
  with assms show "consistent h'" by (simp add: consistent_def)
next
  fix h' :: hub and s
  assume p: "ports h' = ports (notify (h\<lparr>store_state := s\<rparr>))"
    "subscribers h' = subscribers (notify (h\<lparr>store_state := s\<rparr>))"
  from assms have "consistent (h\<lparr>store_state := s\<rparr>)"
    by (simp add: consistent_def)
  then have "consistent (notify (h\<lparr>store_state := s\<rparr>))"
    by (rule consistent_notify)
  with p show "consistent h'" by (simp add: consistent_def)
next
  fix nm
  from assms show "consistent
     (connectState env (length (ports h)) (h\<lparr>ports := ports h @ [new_port nm]\<rparr>))"
    by (rule consistent_connect)
next
  fix h' :: hub and p
  assume "ports h' = ports h"
    "subscribers h' = filter (\<lambda>l. sub_id l \<notin> set (onDisconnect (ports h ! p))) (subscribers h)"
  with assms show "consistent h'" by (simp add: consistent_def)
qed

lemma released_step:
  assumes "released p h"
  shows "released p (step (register env (empty_runtime ext)) h e)
         \<and> posted (ports (step (register env (empty_runtime ext)) h e) ! p) = posted (ports h ! p)"
proof (rule step_rule [where P = "\<lambda>h'. released p h' \<and> posted (ports h' ! p) = posted (ports h ! p)"])
  from assms have p: "p < length (ports h)" and np: "p \<notin> sub_port ` set (subscribers h)"
    by (simp_all add: released_def)
  {
    fix h' :: hub
    assume "ports h' = ports h" "subscribers h' = subscribers h"
    with assms show "released p h' \<and> posted (ports h' ! p) = posted (ports h ! p)"
      by (simp add: released_def)
  next
    fix h' :: hub and s
    assume h': "ports h' = ports (notify (h\<lparr>store_state := s\<rparr>))"
      "subscribers h' = subscribers (notify (h\<lparr>store_state := s\<rparr>))"
    from p have "p < length (ports (h\<lparr>store_state := s\<rparr>))" by simp
    from notify_posted [OF this] np
    have "posted (ports (notify (h\<lparr>store_state := s\<rparr>)) ! p) = posted (ports h ! p)" by auto
    with h' p np show "released p h' \<and> posted (ports h' ! p) = posted (ports h ! p)"
      by (simp add: released_def notify_sub_port_set)
  next
    fix nm
    from p np show "released p (connectState env (length (ports h))
          (h\<lparr>ports := ports h @ [new_port nm]\<rparr>))
      \<and> posted (ports (connectState env (length (ports h))
          (h\<lparr>ports := ports h @ [new_port nm]\<rparr>)) ! p) = posted (ports h ! p)"
      by (auto simp: connect_ports connect_subscribers released_def nth_append)
  next
    fix h' :: hub and q
    assume "ports h' = ports h"
      "subscribers h' = filter (\<lambda>l. sub_id l \<notin> set (onDisconnect (ports h ! q))) (subscribers h)"
    with p np show "released p h' \<and> posted (ports h' ! p) = posted (ports h ! p)"
      by (auto simp: released_def)
  }
qed

lemma run_Cons: "run rt h (e # evs) = run rt (step rt h e) evs"
  by (simp add: run_def)

lemma consistent_run:
  "consistent h \<Longrightarrow> consistent (run (register env (empty_runtime ext)) h evs)"
  by (induction evs arbitrary: h) (simp_all add: run_def consistent_step)


lemma released_run:
  "released p h \<Longrightarrow>
     posted (ports (run (register env (empty_runtime ext)) h evs) ! p) = posted (ports h ! p)"
proof (induction evs arbitrary: h)
  case Nil
  show ?case by (simp add: run_def)
next
  case (Cons e evs)
  from released_step [OF Cons.prems, of env ext e] Cons.IH [of "step (register env (empty_runtime ext)) h e"]
  show ?case by (simp add: run_Cons)
qed

lemma disconnect_releases:
  assumes "consistent h" and "p < length (ports h)"
  shows "released p (step rt h (Disconnect p))"
    and "ports (step rt h (Disconnect p)) = ports h"
proof -
  note fold = foldl_unsubscribe
  from assms show "released p (step rt h (Disconnect p))"
    by (auto simp: step_def fold released_def consistent_def)
  from assms show "ports (step rt h (Disconnect p)) = ports h"
    by (simp add: step_def fold)
qed

lemma wrap_success:
  assumes "wrapStoreSelectors diff_fn store sels opts rt0 = (None, rt)"
  shows "\<exists>env. rt = register env rt0 \<and> selectors env = sels
           \<and> portName env = opt_portName opts"
  using assms
  by (auto simp: wrapStoreSelectors_def split: if_splits arg.splits)

lemma initial_consistent: "consistent (initial_hub s)"
  by (simp add: consistent_def initial_hub_def)



lemma single_wrap_notify:
  assumes "single_wrap env h"
  shows "single_wrap env (notify h)"
proof -
  from assms have "consistent (notify h)"
    by (simp add: single_wrap_def consistent_notify)
  moreover from assms have "distinct (map sub_port (subscribers (notify h)))"
    by (simp add: single_wrap_def)
  moreover from assms have "\<forall>l \<in> set (subscribers (notify h)). sub_env l = env"
    by (auto simp: single_wrap_def notify_def)
  ultimately show ?thesis by (simp add: single_wrap_def)
qed

lemma single_wrap_connect:
  assumes "single_wrap env h"
  shows "single_wrap env
           (connectState env (length (ports h)) (h\<lparr>ports := ports h @ [new_port nm]\<rparr>))"
proof -
  let ?h' = "connectState env (length (ports h)) (h\<lparr>ports := ports h @ [new_port nm]\<rparr>)"
  from assms have c: "consistent h" and d: "distinct (map sub_port (subscribers h))"
    and e: "\<forall>l \<in> set (subscribers h). sub_env l = env"
    by (simp_all add: single_wrap_def)
  from c have fresh: "length (ports h) \<notin> sub_port ` set (subscribers h)"
    by (auto simp: consistent_def)
  from c have "consistent ?h'" by (rule consistent_connect)
  moreover from d fresh have "distinct (map sub_port (subscribers ?h'))"
    by (simp add: connect_subscribers)
  moreover from e have "\<forall>l \<in> set (subscribers ?h'). sub_env l = env"
    by (auto simp: connect_subscribers)
  ultimately show ?thesis by (simp add: single_wrap_def)
qed

lemma single_wrap_step:
  assumes "single_wrap env h"
  shows "single_wrap env (step (register env (empty_runtime ext)) h e)"
proof (rule step_rule [where P = "single_wrap env"])
  fix h' :: hub
  assume "ports h' = ports h" "subscribers h' = subscribers h"
  with assms show "single_wrap env h'"
    by (simp add: single_wrap_def consistent_def)
next
  fix h' :: hub and s
  assume h': "ports h' = ports (notify (h\<lparr>store_state := s\<rparr>))"
    "subscribers h' = subscribers (notify (h\<lparr>store_state := s\<rparr>))"
  from assms have "single_wrap env (h\<lparr>store_state := s\<rparr>)"
    by (simp add: single_wrap_def consistent_def)
  then have "single_wrap env (notify (h\<lparr>store_state := s\<rparr>))"
    by (rule single_wrap_notify)
  with h' show "single_wrap env h'"
    by (simp add: single_wrap_def consistent_def)
next
  fix nm
  from assms show "single_wrap env
     (connectState env (length (ports h)) (h\<lparr>ports := ports h @ [new_port nm]\<rparr>))"
    by (rule single_wrap_connect)
next
  fix h' :: hub and p
  assume "ports h' = ports h"
    "subscribers h' = filter (\<lambda>l. sub_id l \<notin> set (onDisconnect (ports h ! p))) (subscribers h)"
  with assms show "single_wrap env h'"
    by (simp add: single_wrap_def consistent_def distinct_map_filter)
qed

lemma single_wrap_run:
  "single_wrap env h \<Longrightarrow> single_wrap env (run (register env (empty_runtime ext)) h evs)"
  by (induction evs arbitrary: h) (simp_all add: run_def single_wrap_step)

lemma initial_single_wrap: "single_wrap env (initial_hub s)"
  by (simp add: single_wrap_def consistent_def initial_hub_def)

lemma filter_port_single:
  assumes "distinct (map sub_port ls)" and "i < length ls"
  shows "filter (\<lambda>l. sub_port l = sub_port (ls ! i)) ls = [ls ! i]"
  using assms
proof (induction ls arbitrary: i)
  case Nil
  then show ?case by simp
next
  case (Cons a ls)
  show ?case
  proof (cases i)
    case 0
    with Cons.prems have "filter (\<lambda>l. sub_port l = sub_port a) ls = []"
      by (auto simp: filter_empty_conv image_iff)
    with 0 show ?thesis by simp
  next
    case (Suc j)
    with Cons.prems have j: "j < length ls" and d: "distinct (map sub_port ls)"
      and "sub_port a \<notin> sub_port ` set ls" by auto
    then have "sub_port a \<noteq> sub_port (ls ! j)" by (metis image_eqI nth_mem)
    with Cons.IH [OF d j] Suc show ?thesis by simp
  qed
qed

text \<open>
  In the hub of one wrap a notification does to each subscribed closure what
  \<^verbatim>\<open>patchState\<close> says: the closure's messages, and no others, are posted on its port, and
  its cache becomes the new cache.
\<close>

lemma notify_listener:
  assumes "single_wrap env h" and "i < length (subscribers h)"
  defines "l \<equiv> subscribers h ! i"
  shows "posted (ports (notify h) ! sub_port l)
           = posted (ports h ! sub_port l) @ snd (patchState env (store_state h) (prevStates l))"
    and "subscribers (notify h) ! i
           = l\<lparr>prevStates := fst (patchState env (store_state h) (prevStates l))\<rparr>"
proof -
  from assms(1) have c: "consistent h" and d: "distinct (map sub_port (subscribers h))"
    and e: "\<forall>l \<in> set (subscribers h). sub_env l = env"
    by (simp_all add: single_wrap_def)
  from assms(2) have mem: "l \<in> set (subscribers h)" by (simp add: l_def)
  with c have p: "sub_port l < length (ports h)" by (simp add: consistent_def)
  from e mem have env: "sub_env l = env" by simp
  have only: "filter (\<lambda>x. sub_port x = sub_port l) (subscribers h) = [l]"
    unfolding l_def using d assms(2) by (rule filter_port_single)
  show "posted (ports (notify h) ! sub_port l)
           = posted (ports h ! sub_port l) @ snd (patchState env (store_state h) (prevStates l))"
    using p by (simp add: notify_nth only env)
  show "subscribers (notify h) ! i
           = l\<lparr>prevStates := fst (patchState env (store_state h) (prevStates l))\<rparr>"
    using assms(2) env by (simp add: notify_def l_def)
qed

lemma wrap_success_env:
  assumes "wrapStoreSelectors diff_fn store sels opts rt0 = (None, rt)"
  shows "\<exists>env. rt = register env rt0 \<and> selectors env = sels \<and> shallowDiff env = diff_fn"
  using assms
  by (auto simp: wrapStoreSelectors_def split: if_splits arg.splits)

lemma example_wrap:
  "wrapStoreSelectors shallowDiff_spec throwing_store example_selectors example_options
     (empty_runtime True) = (None, register example_env (empty_runtime True))"
  by (simp add: wrapStoreSelectors_def example_options_def example_env_def)

lemma example_runtime_eq: "example_runtime = register example_env (empty_runtime True)"
  by (simp add: example_runtime_def example_wrap)

lemma example_wrapped:
  "wrapStoreSelectors shallowDiff_spec throwing_store example_selectors example_options
     (empty_runtime True) = (None, example_runtime)"
  by (simp add: example_runtime_def example_wrap)

lemma example_connected:
  "run example_runtime (initial_hub s) [Connect Internal (Str ''MY_APP'')]
     = (initial_hub s)
         \<lparr>subscribers := [\<lparr>sub_id = 0, sub_port = 0, sub_env = example_env,
                            prevStates = initial_views example_env s\<rparr>],
          next_id := Suc 0,
          ports := [\<lparr>port_name = Str ''MY_APP'',
                     posted = initial_messages example_env (initial_views example_env s),
                     onDisconnect = [0]\<rparr>]\<rparr>"
proof -
  have "strict_eq (Str ''MY_APP'') (portName example_env)"
    by (simp add: example_env_def)
  from connect_matching [OF this, of "initial_hub s"] show ?thesis
    by (simp add: run_def step_def example_runtime_eq register_empty initial_hub_def)
qed

lemma posted_on_notify_other:
  assumes "p \<notin> sub_port ` set (subscribers h)"
  shows "posted_on (notify h) p = posted_on h p"
proof (cases "p < length (ports h)")
  case True
  from notify_posted [OF True] assms show ?thesis
    using True by (auto simp: posted_on_def)
next
  case False
  then show ?thesis by (simp add: posted_on_def)
qed










text \<open>
  C4. After a successful wrap, whatever events the hub has handled: when the store, now
  in a state \<open>s\<close>, notifies (in the event \<open>Changed s\<close>, or within \<^verbatim>\<open>store.dispatch\<close>, where
  the log of actions has grown as well), and for a subscribed closure (a connected
  channel) the view that a registered selector \<open>(k, sel)\<close> computes for \<open>s\<close> has an empty
  diff against the closure's cached view for \<open>k\<close>, then the messages posted on the
  closure's port during that notification include none with key \<open>k\<close>, and the closure's
  cached view for \<open>k\<close> is as before. The selector names are the keys of an object, so no
  name occurs twice.
\<close>

theorem unchanged_view_posts_nothing:
  fixes acts :: "jsval list"
  assumes "wrapStoreSelectors diff_fn store sels opts (empty_runtime ext) = (None, rt)"
    and "distinct (map fst sels)"
    and "h = run rt (initial_hub s0) evs"
    and "i < length (subscribers h)"
    and "(k, sel) \<in> set sels"
    and "diff_fn (prevStates (subscribers h ! i) k) (sel s) = []"
  defines "h' \<equiv> notify (h\<lparr>store_state := s, dispatched := acts\<rparr>)"
  shows "\<exists>extra.
           posted (ports h' ! sub_port (subscribers h ! i))
             = posted (ports h ! sub_port (subscribers h ! i)) @ extra
         \<and> keyed k extra = []
         \<and> sub_port (subscribers h' ! i) = sub_port (subscribers h ! i)
         \<and> prevStates (subscribers h' ! i) k = prevStates (subscribers h ! i) k"
proof -
  from wrap_success_env [OF assms(1)] obtain env
    where rt: "rt = register env (empty_runtime ext)" and sels: "selectors env = sels"
      and df: "shallowDiff env = diff_fn" by blast
  let ?h = "h\<lparr>store_state := s, dispatched := acts\<rparr>"
  let ?l = "subscribers h ! i"
  have "single_wrap env h"
    unfolding assms(3) rt by (rule single_wrap_run) (rule initial_single_wrap)
  then have sw: "single_wrap env ?h"
    by (simp add: single_wrap_def consistent_def)
  from assms(4) have i: "i < length (subscribers ?h)" by simp
  from assms(2,5) sels have d: "distinct (map fst (selectors env))"
    and m: "(k, sel) \<in> set (selectors env)" by simp_all
  from assms(6) df have empty: "shallowDiff env (prevStates ?l k) (sel s) = []" by simp
  have "posted (ports (notify ?h) ! sub_port ?l)
          = posted (ports h ! sub_port ?l) @ snd (patchState env s (prevStates ?l))"
    using notify_listener(1) [OF sw i] by simp
  moreover have "keyed k (snd (patchState env s (prevStates ?l))) = []"
    unfolding keyed_def using d m empty by (rule patchState_empty_diff(1))
  moreover have "subscribers (notify ?h) ! i
          = ?l\<lparr>prevStates := fst (patchState env s (prevStates ?l))\<rparr>"
    using notify_listener(2) [OF sw i] by simp
  moreover have "fst (patchState env s (prevStates ?l)) k = prevStates ?l k"
    using d m empty by (rule patchState_empty_diff(2))
  ultimately show ?thesis
    by (simp add: h'_def)
qed

theorem unchanged_view_posts_nothing_witness:
  "\<exists>extra.
      posted (ports (step example_runtime
          (run example_runtime (initial_hub state_a1_b2) [Connect Internal (Str ''MY_APP'')])
          (Changed state_a1_b3)) ! 0)
        = posted (ports (run example_runtime (initial_hub state_a1_b2)
            [Connect Internal (Str ''MY_APP'')]) ! 0) @ extra
    \<and> keyed ''s1'' extra = []"
proof -
  let ?h = "run example_runtime (initial_hub state_a1_b2) [Connect Internal (Str ''MY_APP'')]"
  have d: "distinct (map fst example_selectors)"
    and m: "(''s1'', pick [''a'']) \<in> set example_selectors"
    by (simp_all add: example_selectors_def)
  have i: "0 < length (subscribers ?h)"
    by (simp add: example_connected)
  have e: "shallowDiff_spec (prevStates (subscribers ?h ! 0) ''s1'') (pick [''a''] state_a1_b3) = []"
    by (simp add: example_connected example_defs initial_views_def)
  have st: "step example_runtime ?h (Changed state_a1_b3)
      = notify (?h\<lparr>store_state := state_a1_b3, dispatched := dispatched ?h\<rparr>)"
    by (simp add: step_def)
  from unchanged_view_posts_nothing [OF example_wrapped d refl i m e, of "dispatched ?h"]
  obtain extra where "posted (ports (notify (?h\<lparr>store_state := state_a1_b3,
          dispatched := dispatched ?h\<rparr>)) ! sub_port (subscribers ?h ! 0))
        = posted (ports ?h ! sub_port (subscribers ?h ! 0)) @ extra
      \<and> keyed ''s1'' extra = []
      \<and> sub_port (subscribers (notify (?h\<lparr>store_state := state_a1_b3,
            dispatched := dispatched ?h\<rparr>)) ! 0) = sub_port (subscribers ?h ! 0)
      \<and> prevStates (subscribers (notify (?h\<lparr>store_state := state_a1_b3,
            dispatched := dispatched ?h\<rparr>)) ! 0) ''s1'' = prevStates (subscribers ?h ! 0) ''s1''"
    by (rule exE)
  moreover have "sub_port (subscribers ?h ! 0) = 0"
    by (simp add: example_connected)
  ultimately have "posted (ports (step example_runtime ?h (Changed state_a1_b3)) ! 0)
        = posted (ports ?h ! 0) @ extra \<and> keyed ''s1'' extra = []"
    by (simp only: st)
  then show ?thesis by (rule exI)
qed



text \<open>
  C6. After a successful wrap, once the disconnect event of a port \<open>p\<close> has been handled,
  no later sequence of events (state changes, dispatches, other connections) posts a
  message on \<open>p\<close>: what has been posted on \<open>p\<close> stays what it was at the disconnect.
\<close>

theorem silent_after_disconnect:
  assumes "wrapStoreSelectors diff_fn store sels opts (empty_runtime ext) = (None, rt)"
    and "h = run rt (initial_hub s0) earlier"
    and "p < length (ports h)"
  shows "posted (ports (run rt (step rt h (Disconnect p)) later) ! p) = posted (ports h ! p)"
proof -
  from wrap_success [OF assms(1)] obtain env
    where rt: "rt = register env (empty_runtime ext)" by blast
  have "consistent h"
    unfolding assms(2) rt by (rule consistent_run) (rule initial_consistent)
  from disconnect_releases [OF this assms(3), of rt]
  have rel: "released p (step rt h (Disconnect p))"
    and same: "ports (step rt h (Disconnect p)) = ports h" by simp_all
  from released_run [OF rel [unfolded rt], of env ext later] same show ?thesis
    by (simp add: rt)
qed

theorem silent_after_disconnect_witness:
  "posted (ports (run example_runtime
       (step example_runtime
          (run example_runtime (initial_hub state_a1_b2) [Connect Internal (Str ''MY_APP'')])
          (Disconnect 0))
       [Changed state_a1_b3]) ! 0)
   = posted (ports (run example_runtime (initial_hub state_a1_b2)
       [Connect Internal (Str ''MY_APP'')]) ! 0)"
proof -
  let ?h = "run example_runtime (initial_hub state_a1_b2) [Connect Internal (Str ''MY_APP'')]"
  have p: "0 < length (ports ?h)"
    by (simp add: example_connected)
  from silent_after_disconnect [OF example_wrapped refl p] show ?thesis .
qed

end
